theory Spec2Isabelle
  imports Main "HOL-Library.AList" "HOL-Library.Multiset"
begin

section \<open>The model task queue of UnSHACLed (src/entities/modelTaskQueue.ts)\<close>

text \<open>
  The scheduler keeps tasks as instructions in a mutable variant of SSA form. Instructions
  are objects that refer to each other through their dependency sets, so the embedding
  keeps them in an explicit store: an instruction is a handle (a natural number), the
  store maps handles to the fields of the object, and \<open>new TaskInstruction\<close> takes the
  next unused handle.

  The collections of typescript-collections are modelled as follows.
  \<^item> \<open>Collections.Set\<close> is a list without duplicates in insertion order (the order in
    which \<open>forEach\<close> visits the elements): \<open>add\<close> appends an element that is not yet
    there, \<open>remove\<close> deletes it, \<open>contains\<close> is membership. No callback that the queue
    passes to \<open>forEach\<close> returns \<open>false\<close>, so every loop visits all elements.
  \<^item> \<open>Collections.Queue\<close> is a list, enqueued at the back and dequeued at the front.
  \<^item> \<open>Collections.Dictionary\<close> is a partial map (the latest component state map) or an
    association list (the sub-queues). \<open>DefaultDictionary.getValue\<close> answers the stored
    queue, or a new empty queue for a key without one; whether the library keeps that
    empty queue under the key makes no difference to any later \<open>getValue\<close>, and the model
    does not keep it.

  \<open>Collections.Set\<close> tells its elements apart by \<open>toString\<close>, which \<open>TaskInstruction\<close>
  defines as the index of its task. The class \<open>Task\<close> is not among the sources; the
  model takes distinct instructions to print differently, so that one handle stands for
  both the reference (\<open>===\<close>) and the element of a set.

  Priorities are integers, as the specification has them (the TypeScript type is
  \<open>number\<close>).
\<close>

subsection \<open>Tasks and instructions\<close>

text \<open>
  Modelled from the spec: the classes \<open>Task\<close>, \<open>ModelTaskMetadata\<close> and \<open>TaskRewriter\<close>
  and the type \<open>ModelComponent\<close> are imported by the task queue but are not among the
  sources. A component is an opaque token that can be compared; a task carries a read set,
  a write set and a priority (and a payload that the scheduler never looks at; the field
  \<open>index\<close> stands for it); a rewriter has the two functions \<open>isOfInterest\<close> and
  \<open>maybeRewrite\<close>.
\<close>

type_synonym ModelComponent = nat

record ModelTaskMetadata =
  readSet :: "ModelComponent list"
  writeSet :: "ModelComponent list"
  priority :: int

record ModelTask =
  index :: nat
  metadata :: ModelTaskMetadata

record ModelTaskRewriter =
  isOfInterest :: "ModelTask \<Rightarrow> bool"
  maybeRewrite :: "ModelTask \<Rightarrow> ModelTask \<Rightarrow> ModelTask option"

type_synonym instr = nat

record TaskInstruction =
  task :: ModelTask
  dependencies :: "instr list"
  invertedDependencies :: "instr list"

text \<open>\<open>Collections.Set.add\<close> and \<open>Collections.Set.remove\<close>.\<close>

definition set_add :: "'a list \<Rightarrow> 'a \<Rightarrow> 'a list" where
  "set_add xs x = (if x \<in> set xs then xs else xs @ [x])"

definition set_remove :: "'a list \<Rightarrow> 'a \<Rightarrow> 'a list" where
  "set_remove xs x = removeAll x xs"

text \<open>The constructor of \<open>TaskInstruction\<close>.\<close>

definition newTaskInstruction :: "ModelTask \<Rightarrow> TaskInstruction" where
  "newTaskInstruction t = \<lparr>task = t, dependencies = [], invertedDependencies = []\<rparr>"

definition isEligibleForExecution :: "TaskInstruction \<Rightarrow> bool" where
  "isEligibleForExecution i = (dependencies i = [])"

subsection \<open>The priority generator\<close>

record PriorityGenerator =
  pg_min :: int
  pg_max :: int
  current :: int
  frontier :: int

definition newPriorityGenerator :: PriorityGenerator where
  "newPriorityGenerator = \<lparr>pg_min = 0, pg_max = 0, current = 0, frontier = 0\<rparr>"

definition notifyPriorityExists :: "PriorityGenerator \<Rightarrow> int \<Rightarrow> PriorityGenerator" where
  "notifyPriorityExists g p =
     (let g1 = g\<lparr>pg_min := min (pg_min g) p\<rparr>;
          oldMax = pg_max g1;
          g2 = g1\<lparr>pg_max := max (pg_max g1) p\<rparr>
      in if oldMax \<noteq> pg_max g2
         then g2\<lparr>current := pg_max g2, frontier := pg_max g2\<rparr>
         else g2)"

definition nextFrontier :: "PriorityGenerator \<Rightarrow> PriorityGenerator" where
  "nextFrontier g =
     (let g1 = (if frontier g > pg_min g
                then g\<lparr>frontier := frontier g - 1\<rparr>
                else g\<lparr>frontier := pg_max g\<rparr>)
      in g1\<lparr>current := pg_max g1\<rparr>)"

text \<open>\<open>PriorityGenerator.next\<close>: the priority it returns and the generator afterwards.\<close>

definition pg_next :: "PriorityGenerator \<Rightarrow> int \<times> PriorityGenerator" where
  "pg_next g =
     (let result = current g
      in if result \<le> frontier g
         then (result, nextFrontier g)
         else (result, g\<lparr>current := current g - 1\<rparr>))"

text \<open>Calling \<open>next\<close> a number of times: the priorities in the order they come out.\<close>

fun pg_take :: "nat \<Rightarrow> PriorityGenerator \<Rightarrow> int list \<times> PriorityGenerator" where
  "pg_take 0 g = ([], g)"
| "pg_take (Suc n) g =
     (case pg_next g of (p, g1) \<Rightarrow>
        (case pg_take n g1 of (ps, g2) \<Rightarrow> (p # ps, g2)))"

subsection \<open>The priority-partitioned queue\<close>

record PriorityPartitionedQueue =
  subQueues :: "(int \<times> instr list) list"
  nonEmptySubQueueCount :: int
  priorityGen :: PriorityGenerator

definition newPriorityPartitionedQueue :: PriorityPartitionedQueue where
  "newPriorityPartitionedQueue =
     \<lparr>subQueues = [], nonEmptySubQueueCount = 0, priorityGen = newPriorityGenerator\<rparr>"

text \<open>\<open>DefaultDictionary.getValue\<close> with the empty queue as the default.\<close>

definition getSubQueue :: "(int \<times> instr list) list \<Rightarrow> int \<Rightarrow> instr list" where
  "getSubQueue sq p = (case map_of sq p of None \<Rightarrow> [] | Some q \<Rightarrow> q)"

definition ppq_isEmpty :: "PriorityPartitionedQueue \<Rightarrow> bool" where
  "ppq_isEmpty q = (nonEmptySubQueueCount q = 0)"

definition ppq_enqueue ::
  "(instr \<Rightarrow> int) \<Rightarrow> PriorityPartitionedQueue \<Rightarrow> instr \<Rightarrow> PriorityPartitionedQueue" where
  "ppq_enqueue getPriority q v =
     (let p = getPriority v;
          subQueue = getSubQueue (subQueues q) p;
          q1 = (if subQueue = []
                then q\<lparr>nonEmptySubQueueCount := nonEmptySubQueueCount q + 1,
                       priorityGen := notifyPriorityExists (priorityGen q) p\<rparr>
                else q)
      in q1\<lparr>subQueues := AList.update p (subQueue @ [v]) (subQueues q1)\<rparr>)"

text \<open>
  The loop of \<open>PriorityPartitionedQueue.dequeue\<close> that asks the generator for priorities
  until the sub-queue of one is not empty. Nothing in the loop itself bounds the number of
  rounds, so the result is an option: \<open>None\<close> stands for a loop that never ends.
\<close>

partial_function (option) nextNonEmpty ::
  "(int \<times> instr list) list \<Rightarrow> PriorityGenerator \<Rightarrow> (int \<times> PriorityGenerator) option" where
  "nextNonEmpty sq g =
     (case pg_next g of (p, g1) \<Rightarrow>
        if getSubQueue sq p = [] then nextNonEmpty sq g1 else Some (p, g1))"

text \<open>
  \<open>PriorityPartitionedQueue.dequeue\<close>: the element (or \<open>None\<close> for \<open>undefined\<close>) and the
  queue afterwards; the outer option is \<open>None\<close> when the loop does not end.
\<close>

definition ppq_dequeue ::
  "PriorityPartitionedQueue \<Rightarrow> (instr option \<times> PriorityPartitionedQueue) option" where
  "ppq_dequeue q =
     (if ppq_isEmpty q then Some (None, q)
      else case nextNonEmpty (subQueues q) (priorityGen q) of
        None \<Rightarrow> None
      | Some (p, g1) \<Rightarrow>
          (case getSubQueue (subQueues q) p of
             [] \<Rightarrow> Some (None, q\<lparr>priorityGen := g1\<rparr>)
           | x # rest \<Rightarrow>
               Some (Some x,
                 q\<lparr>priorityGen := g1,
                   subQueues := AList.update p rest (subQueues q),
                   nonEmptySubQueueCount :=
                     (if rest = [] then nonEmptySubQueueCount q - 1
                      else nonEmptySubQueueCount q)\<rparr>)))"

text \<open>All elements that are stored in the sub-queues.\<close>

definition ppq_contents :: "PriorityPartitionedQueue \<Rightarrow> instr list" where
  "ppq_contents q = concat (map snd (subQueues q))"

subsection \<open>The instruction merger and the task queue\<close>

record InstructionMerger =
  rewriters :: "ModelTaskRewriter list"
  interestSets :: "instr list list"

definition newInstructionMerger :: InstructionMerger where
  "newInstructionMerger = \<lparr>rewriters = [], interestSets = []\<rparr>"

record ModelTaskQueue =
  instrs :: "instr \<Rightarrow> TaskInstruction"
  allocated :: nat
  eligibleInstructions :: PriorityPartitionedQueue
  latestComponentStateMap :: "ModelComponent \<rightharpoonup> instr"
  merger :: InstructionMerger

text \<open>The constructor; no instruction object exists yet.\<close>

definition newModelTaskQueue :: ModelTaskQueue where
  "newModelTaskQueue =
     \<lparr>instrs = (\<lambda>_. newTaskInstruction \<lparr>index = 0, metadata =
          \<lparr>readSet = [], writeSet = [], priority = 0\<rparr>\<rparr>),
      allocated = 0,
      eligibleInstructions = newPriorityPartitionedQueue,
      latestComponentStateMap = Map.empty,
      merger = newInstructionMerger\<rparr>"

definition getPriority :: "ModelTaskQueue \<Rightarrow> instr \<Rightarrow> int" where
  "getPriority s i = priority (metadata (task (instrs s i)))"

definition isEmpty :: "ModelTaskQueue \<Rightarrow> bool" where
  "isEmpty s = ppq_isEmpty (eligibleInstructions s)"

text \<open>Updates of one field of one instruction object.\<close>

definition mapDependencies ::
  "instr \<Rightarrow> (instr list \<Rightarrow> instr list) \<Rightarrow> ModelTaskQueue \<Rightarrow> ModelTaskQueue" where
  "mapDependencies i f s =
     s\<lparr>instrs := (instrs s)(i := (instrs s i)\<lparr>dependencies := f (dependencies (instrs s i))\<rparr>)\<rparr>"

definition mapInvertedDependencies ::
  "instr \<Rightarrow> (instr list \<Rightarrow> instr list) \<Rightarrow> ModelTaskQueue \<Rightarrow> ModelTaskQueue" where
  "mapInvertedDependencies i f s =
     s\<lparr>instrs := (instrs s)(i := (instrs s i)
          \<lparr>invertedDependencies := f (invertedDependencies (instrs s i))\<rparr>)\<rparr>"

text \<open>\<open>InstructionMerger.registerRewriter\<close>, \<open>introduceInstruction\<close>, \<open>completeInstruction\<close>.\<close>

definition im_registerRewriter :: "ModelTaskRewriter \<Rightarrow> InstructionMerger \<Rightarrow> InstructionMerger" where
  "im_registerRewriter r m =
     m\<lparr>rewriters := rewriters m @ [r], interestSets := interestSets m @ [[]]\<rparr>"

fun introduceLoop :: "ModelTask \<Rightarrow> instr \<Rightarrow> ModelTaskRewriter list \<Rightarrow> instr list list \<Rightarrow> instr list list" where
  "introduceLoop t i (r # rs) (x # xs) =
     (if isOfInterest r t then set_add x i else x) # introduceLoop t i rs xs"
| "introduceLoop t i [] xs = xs"
| "introduceLoop t i rs [] = []"

definition introduceInstruction :: "instr \<Rightarrow> ModelTaskQueue \<Rightarrow> ModelTaskQueue" where
  "introduceInstruction i s =
     s\<lparr>merger := (merger s)\<lparr>interestSets :=
          introduceLoop (task (instrs s i)) i (rewriters (merger s)) (interestSets (merger s))\<rparr>\<rparr>"

definition completeInstruction :: "instr \<Rightarrow> ModelTaskQueue \<Rightarrow> ModelTaskQueue" where
  "completeInstruction i s =
     s\<lparr>merger := (merger s)\<lparr>interestSets :=
          map (\<lambda>x. set_remove x i) (interestSets (merger s))\<rparr>\<rparr>"

text \<open>\<open>ModelTaskQueue.enqueue\<close>, loop by loop.\<close>

definition addDependency :: "instr \<Rightarrow> ModelComponent \<Rightarrow> ModelTaskQueue \<Rightarrow> ModelTaskQueue" where
  "addDependency i c s =
     (case latestComponentStateMap s c of
        None \<Rightarrow> s
      | Some d \<Rightarrow>
          mapInvertedDependencies d (\<lambda>x. set_add x i)
            (mapDependencies i (\<lambda>x. set_add x d) s))"

definition setLatest :: "instr \<Rightarrow> ModelComponent \<Rightarrow> ModelTaskQueue \<Rightarrow> ModelTaskQueue" where
  "setLatest i c s = s\<lparr>latestComponentStateMap := (latestComponentStateMap s)(c \<mapsto> i)\<rparr>"

definition enqueue :: "ModelTask \<Rightarrow> ModelTaskQueue \<Rightarrow> ModelTaskQueue" where
  "enqueue t s =
     (let i = allocated s;
          s1 = s\<lparr>instrs := (instrs s)(i := newTaskInstruction t), allocated := Suc i\<rparr>;
          s2 = fold (addDependency i) (readSet (metadata t)) s1;
          s3 = fold (setLatest i) (writeSet (metadata t)) s2;
          s4 = (if isEligibleForExecution (instrs s3 i)
                then s3\<lparr>eligibleInstructions :=
                       ppq_enqueue (getPriority s3) (eligibleInstructions s3) i\<rparr>
                else s3)
      in introduceInstruction i s4)"

text \<open>\<open>ModelTaskQueue.complete\<close>.\<close>

definition release :: "instr \<Rightarrow> instr \<Rightarrow> ModelTaskQueue \<Rightarrow> ModelTaskQueue" where
  "release i dependent s =
     (let s1 = mapDependencies dependent (\<lambda>x. set_remove x i) s
      in if isEligibleForExecution (instrs s1 dependent)
         then s1\<lparr>eligibleInstructions :=
                ppq_enqueue (getPriority s1) (eligibleInstructions s1) dependent\<rparr>
         else s1)"

definition clearLatest :: "instr \<Rightarrow> ModelComponent \<Rightarrow> ModelTaskQueue \<Rightarrow> ModelTaskQueue" where
  "clearLatest i c s =
     (if latestComponentStateMap s c = Some i
      then s\<lparr>latestComponentStateMap := (latestComponentStateMap s)(c := None)\<rparr>
      else s)"

definition complete :: "instr \<Rightarrow> ModelTaskQueue \<Rightarrow> ModelTaskQueue" where
  "complete i s =
     (let s1 = completeInstruction i s;
          s2 = fold (release i) (invertedDependencies (instrs s1 i)) s1;
          s3 = mapInvertedDependencies i (\<lambda>_. []) s2
      in fold (clearLatest i) (writeSet (metadata (task (instrs s3 i)))) s3)"

text \<open>
  \<open>ModelTaskQueue.dequeue\<close> in two parts: \<open>dequeueInstruction\<close> is the body up to and
  including \<open>this.complete(instr)\<close> and answers the instruction, \<open>dequeue\<close> returns
  \<open>instr.task\<close>.
\<close>

definition dequeueInstruction :: "ModelTaskQueue \<Rightarrow> (instr option \<times> ModelTaskQueue) option" where
  "dequeueInstruction s =
     (case ppq_dequeue (eligibleInstructions s) of
        None \<Rightarrow> None
      | Some (None, q) \<Rightarrow> Some (None, s\<lparr>eligibleInstructions := q\<rparr>)
      | Some (Some i, q) \<Rightarrow> Some (Some i, complete i (s\<lparr>eligibleInstructions := q\<rparr>)))"

definition dequeue :: "ModelTaskQueue \<Rightarrow> (ModelTask option \<times> ModelTaskQueue) option" where
  "dequeue s =
     (case dequeueInstruction s of
        None \<Rightarrow> None
      | Some (None, s1) \<Rightarrow> Some (None, s1)
      | Some (Some i, s1) \<Rightarrow> Some (Some (task (instrs s1 i)), s1))"

definition registerRewriter :: "ModelTaskRewriter \<Rightarrow> ModelTaskQueue \<Rightarrow> ModelTaskQueue" where
  "registerRewriter r s = s\<lparr>merger := im_registerRewriter r (merger s)\<rparr>"

subsection \<open>Merging instructions\<close>

definition hasEmptyIntersection :: "'a list \<Rightarrow> 'a list \<Rightarrow> bool" where
  "hasEmptyIntersection first second =
     fold (\<lambda>element result. if element \<in> set second then False else result) first True"

definition canMergeReadAfterWrite :: "instr \<Rightarrow> instr \<Rightarrow> ModelTaskQueue \<Rightarrow> bool" where
  "canMergeReadAfterWrite first second s =
     fold (\<lambda>dependentInstr canMerge.
             if dependentInstr = second then canMerge
             else if \<not> hasEmptyIntersection
                         (readSet (metadata (task (instrs s dependentInstr))))
                         (writeSet (metadata (task (instrs s second))))
                     \<or> dependentInstr \<in> set (dependencies (instrs s second))
                  then False
                  else canMerge)
          (invertedDependencies (instrs s first)) True"

definition findReadAfterWriteMergeCandidates ::
  "instr \<Rightarrow> ModelTaskQueue \<Rightarrow> (instr \<times> ModelTaskRewriter) list" where
  "findReadAfterWriteMergeCandidates instruction s =
     concat (map (\<lambda>otherInstruction.
        map (\<lambda>(rewriter, interestSet). (otherInstruction, rewriter))
          (filter (\<lambda>(rewriter, interestSet).
                     otherInstruction \<in> set interestSet
                     \<and> instruction \<in> set interestSet
                     \<and> canMergeReadAfterWrite instruction otherInstruction s)
             (zip (rewriters (merger s)) (interestSets (merger s)))))
        (invertedDependencies (instrs s instruction)))"

definition transferDependencies :: "instr \<Rightarrow> instr \<Rightarrow> ModelTaskQueue \<Rightarrow> ModelTaskQueue" where
  "transferDependencies mergedInstr originalInstr s =
     fold (\<lambda>element s0.
             mapInvertedDependencies mergedInstr (\<lambda>x. set_add x element)
               (mapDependencies element (\<lambda>x. set_add x mergedInstr)
                 (mapDependencies element (\<lambda>x. set_remove x originalInstr) s0)))
          (invertedDependencies (instrs s originalInstr)) s"

definition createMergedInstruction ::
  "instr \<Rightarrow> instr \<Rightarrow> ModelTask \<Rightarrow> ModelTaskQueue \<Rightarrow> instr \<times> ModelTaskQueue" where
  "createMergedInstruction first second mergedTask s =
     (let mergedInstr = allocated s;
          s1 = s\<lparr>instrs := (instrs s)(mergedInstr := newTaskInstruction mergedTask),
                 allocated := Suc mergedInstr\<rparr>;
          s2 = transferDependencies mergedInstr first s1;
          s3 = transferDependencies mergedInstr second s2;
          s4 = completeInstruction first s3;
          s5 = completeInstruction second s4
      in (mergedInstr, introduceInstruction mergedInstr s5))"

text \<open>
  \<open>InstructionMerger.merge\<close>: the loop over the candidates stops at the first one that
  the rewriter merges, and answers the merged and the nullified instruction.
\<close>

fun mergeCandidates ::
  "instr \<Rightarrow> (instr \<times> ModelTaskRewriter) list \<Rightarrow> ModelTaskQueue
     \<Rightarrow> (instr \<times> instr) option \<times> ModelTaskQueue" where
  "mergeCandidates instruction [] s = (None, s)"
| "mergeCandidates instruction ((candidate, rewriter) # rest) s =
     (case maybeRewrite rewriter (task (instrs s instruction)) (task (instrs s candidate)) of
        Some mergedTask \<Rightarrow>
          (case createMergedInstruction instruction candidate mergedTask s of
             (merged, s1) \<Rightarrow> (Some (merged, candidate), s1))
      | None \<Rightarrow> mergeCandidates instruction rest s)"

definition merge :: "instr \<Rightarrow> ModelTaskQueue \<Rightarrow> (instr \<times> instr) option \<times> ModelTaskQueue" where
  "merge instruction s =
     mergeCandidates instruction (findReadAfterWriteMergeCandidates instruction s) s"

subsection \<open>Traces of operations\<close>

datatype operation = Enqueue ModelTask | Dequeue | RegisterRewriter ModelTaskRewriter

text \<open>
  A run of the queue: the queue itself and the history of the calls, that is the tasks
  that were passed to \<open>enqueue\<close>, what the calls of \<open>dequeue\<close> have returned (in the order
  of the calls, \<open>None\<close> for \<open>undefined\<close>), and the instructions that these calls picked.
\<close>

record Run =
  queue :: ModelTaskQueue
  enqueuedTasks :: "ModelTask list"
  returned :: "ModelTask option list"
  dequeued :: "instr list"

definition newRun :: Run where
  "newRun = \<lparr>queue = newModelTaskQueue, enqueuedTasks = [], returned = [], dequeued = []\<rparr>"

fun apply_op :: "operation \<Rightarrow> Run \<Rightarrow> Run option" where
  "apply_op (Enqueue t) r =
     Some (r\<lparr>queue := enqueue t (queue r), enqueuedTasks := enqueuedTasks r @ [t]\<rparr>)"
| "apply_op (RegisterRewriter w) r = Some (r\<lparr>queue := registerRewriter w (queue r)\<rparr>)"
| "apply_op Dequeue r =
     (case dequeueInstruction (queue r) of
        None \<Rightarrow> None
      | Some (None, s1) \<Rightarrow> Some (r\<lparr>queue := s1, returned := returned r @ [None]\<rparr>)
      | Some (Some i, s1) \<Rightarrow>
          Some (r\<lparr>queue := s1,
                 returned := returned r @ [Some (task (instrs s1 i))],
                 dequeued := dequeued r @ [i]\<rparr>))"

fun run_ops :: "operation list \<Rightarrow> Run \<Rightarrow> Run option" where
  "run_ops [] r = Some r"
| "run_ops (x # xs) r = (case apply_op x r of None \<Rightarrow> None | Some r1 \<Rightarrow> run_ops xs r1)"

definition run_trace :: "operation list \<Rightarrow> Run option" where
  "run_trace ops = run_ops ops newRun"

subsection \<open>Scenario S6 of the specification\<close>

text \<open>
  Two tasks, the first writes component 7 and the second reads it, and a rewriter that is
  interested in both and merges the first with the second into a third task.
\<close>

definition s6_t1 :: ModelTask where
  "s6_t1 = \<lparr>index = 1, metadata = \<lparr>readSet = [], writeSet = [7], priority = 0\<rparr>\<rparr>"

definition s6_t2 :: ModelTask where
  "s6_t2 = \<lparr>index = 2, metadata = \<lparr>readSet = [7], writeSet = [], priority = 0\<rparr>\<rparr>"

definition s6_t12 :: ModelTask where
  "s6_t12 = \<lparr>index = 3, metadata = \<lparr>readSet = [], writeSet = [7], priority = 0\<rparr>\<rparr>"

definition s6_rewriter :: ModelTaskRewriter where
  "s6_rewriter =
     \<lparr>isOfInterest = (\<lambda>t. t = s6_t1 \<or> t = s6_t2),
      maybeRewrite = (\<lambda>first second.
         if first = s6_t1 \<and> second = s6_t2 then Some s6_t12 else None)\<rparr>"

section \<open>Auxiliary definitions for the proofs\<close>

subsection \<open>The cycle of the priority generator\<close>





text \<open>
  The states of a generator between two notifications, and (twice) the number of calls of
  \<open>next\<close> that lead from the start of the cycle to a state.
\<close>

definition pg_inv :: "PriorityGenerator \<Rightarrow> bool" where
  "pg_inv g \<longleftrightarrow> pg_min g \<le> frontier g \<and> frontier g \<le> current g \<and> current g \<le> pg_max g"



subsection \<open>Termination of the loop of the priority-partitioned queue\<close>

text \<open>
  The order in which the loop of \<open>dequeue\<close> approaches a priority \<open>p\<close> of the window:
  the number of times the frontier still has to move before a run passes \<open>p\<close>, then the
  number of calls left in the current run.
\<close>

definition pg_rounds :: "int \<Rightarrow> PriorityGenerator \<Rightarrow> nat" where
  "pg_rounds p g =
     (if frontier g \<le> p \<and> p \<le> current g then 0
      else if p < frontier g then nat (frontier g - p)
      else if frontier g > pg_min g then 1
      else 1 + nat (pg_max g - p))"

definition pg_left :: "PriorityGenerator \<Rightarrow> nat" where
  "pg_left g = nat (current g - frontier g)"


text \<open>
  The invariant of the priority-partitioned queue: the keys of the dictionary are unique,
  the counter is the number of sub-queues that are not empty, and each of those has a
  priority in the window of the generator.
\<close>

definition ppq_inv :: "PriorityPartitionedQueue \<Rightarrow> bool" where
  "ppq_inv q \<longleftrightarrow>
     distinct (map fst (subQueues q))
     \<and> nonEmptySubQueueCount q = int (card {p. getSubQueue (subQueues q) p \<noteq> []})
     \<and> pg_inv (priorityGen q)
     \<and> (\<forall>p. getSubQueue (subQueues q) p \<noteq> [] \<longrightarrow>
            pg_min (priorityGen q) \<le> p \<and> p \<le> pg_max (priorityGen q))"




subsection \<open>Invariants of the task queue\<close>

text \<open>The instructions on which a task that is enqueued now comes to depend.\<close>

definition newDependencies :: "ModelTask \<Rightarrow> ModelTaskQueue \<Rightarrow> instr set" where
  "newDependencies t s =
     {d. \<exists>c \<in> set (readSet (metadata t)). latestComponentStateMap s c = Some d}"


text \<open>
  The invariant of the dependency graph: the two dependency sets mirror each other, an
  inverted dependency set lists no instruction twice, instruction objects that do not
  exist yet have no edges, and the latest component state map names existing
  instructions that write the component.
\<close>

definition graph_inv :: "ModelTaskQueue \<Rightarrow> bool" where
  "graph_inv s \<longleftrightarrow>
     ppq_inv (eligibleInstructions s)
     \<and> (\<forall>i j. j \<in> set (dependencies (instrs s i))
              \<longleftrightarrow> i \<in> set (invertedDependencies (instrs s j)))
     \<and> (\<forall>h. distinct (invertedDependencies (instrs s h)))
     \<and> (\<forall>h. allocated s \<le> h \<longrightarrow>
            dependencies (instrs s h) = [] \<and> invertedDependencies (instrs s h) = [])
     \<and> (\<forall>c d. latestComponentStateMap s c = Some d \<longrightarrow>
            d < allocated s \<and> c \<in> set (writeSet (metadata (task (instrs s d)))))"

text \<open>
  The invariant of a run: an instruction is in the priority-partitioned queue or has been
  dequeued exactly if it exists and has no dependencies, it is there only once, the latest
  component state map names no dequeued instruction, and the history agrees with the
  instruction objects.
\<close>

definition run_inv :: "Run \<Rightarrow> bool" where
  "run_inv r \<longleftrightarrow>
     graph_inv (queue r)
     \<and> distinct (ppq_contents (eligibleInstructions (queue r)) @ dequeued r)
     \<and> (\<forall>h. h \<in> set (ppq_contents (eligibleInstructions (queue r))) \<union> set (dequeued r)
            \<longleftrightarrow> h < allocated (queue r) \<and> dependencies (instrs (queue r) h) = [])
     \<and> (\<forall>c d. latestComponentStateMap (queue r) c = Some d \<longrightarrow> d \<notin> set (dequeued r))
     \<and> allocated (queue r) = length (enqueuedTasks r)
     \<and> (\<forall>h < allocated (queue r). task (instrs (queue r) h) = enqueuedTasks r ! h)
     \<and> List.map_filter id (returned r) = map (\<lambda>h. enqueuedTasks r ! h) (dequeued r)"

subsection \<open>The order of dequeuing\<close>





subsection \<open>Priorities of the queued instructions\<close>


section \<open>Properties\<close>

subsection \<open>Evaluation\<close>

lemma nextNonEmpty_hit:
  "getSubQueue sq (current g) \<noteq> [] \<Longrightarrow> nextNonEmpty sq g = Some (pg_next g)"
  by (subst nextNonEmpty.simps) (simp add: pg_next_def Let_def)

lemma nextNonEmpty_miss:
  "getSubQueue sq (current g) = [] \<Longrightarrow> nextNonEmpty sq g = nextNonEmpty sq (snd (pg_next g))"
  by (subst nextNonEmpty.simps) (simp add: pg_next_def Let_def)

declare nextNonEmpty.simps [code]

lemmas queue_defs =
  run_trace_def newRun_def newModelTaskQueue_def enqueue_def newTaskInstruction_def
  isEligibleForExecution_def ppq_enqueue_def getSubQueue_def newPriorityPartitionedQueue_def
  newPriorityGenerator_def notifyPriorityExists_def getPriority_def introduceInstruction_def
  newInstructionMerger_def setLatest_def addDependency_def dequeue_def dequeueInstruction_def
  ppq_dequeue_def ppq_isEmpty_def isEmpty_def nextNonEmpty_hit nextNonEmpty_miss pg_next_def
  nextFrontier_def complete_def completeInstruction_def mapInvertedDependencies_def
  mapDependencies_def clearLatest_def release_def set_add_def set_remove_def Let_def
  registerRewriter_def im_registerRewriter_def

subsection \<open>The priority generator\<close>




lemma count_list_upto:
  "count_list [a..b] i = (if a \<le> i \<and> i \<le> b then 1 else 0)"
proof (induction a b rule: upto.induct)
  case (1 a b)
  show ?case
  proof (cases "a \<le> b")
    case True
    then have "[a..b] = a # [a + 1..b]" by (simp add: upto_rec1)
    with 1 True show ?thesis by auto
  next
    case False
    then show ?thesis by auto
  qed
qed

lemma count_list_rev_upto:
  "count_list (rev [a..b]) i = (if a \<le> i \<and> i \<le> b then 1 else 0)"
  by (simp add: count_list_upto)




















subsection \<open>The instruction merger\<close>

lemma hasEmptyIntersection_fold:
  "fold (\<lambda>element result. if element \<in> set ys then False else result) xs b
     = (b \<and> set xs \<inter> set ys = {})"
  by (induction xs arbitrary: b) auto

lemma hasEmptyIntersection_iff:
  "hasEmptyIntersection xs ys \<longleftrightarrow> set xs \<inter> set ys = {}"
  by (simp add: hasEmptyIntersection_def hasEmptyIntersection_fold)

lemma canMerge_fold:
  "fold (\<lambda>k b. if k = second then b else if Q k then False else b) ks b0
     = (b0 \<and> (\<forall>k \<in> set ks. k \<noteq> second \<longrightarrow> \<not> Q k))"
  by (induction ks arbitrary: b0) auto

text \<open>
  C7: for instructions \<open>first\<close> and \<open>second\<close> with a read-after-write edge between them
  (\<open>second\<close> is in the inverted dependency set of \<open>first\<close>), \<open>canMergeReadAfterWrite\<close>
  answers true exactly if every other instruction \<open>k\<close> in the inverted dependency set of
  \<open>first\<close> reads nothing that \<open>second\<close> writes and is not a dependency of \<open>second\<close>.
\<close>

theorem canMergeReadAfterWrite_iff:
  "second \<in> set (invertedDependencies (instrs s first)) \<Longrightarrow>
   canMergeReadAfterWrite first second s \<longleftrightarrow>
     (\<forall>k \<in> set (invertedDependencies (instrs s first)). k \<noteq> second \<longrightarrow>
        set (readSet (metadata (task (instrs s k))))
          \<inter> set (writeSet (metadata (task (instrs s second)))) = {}
        \<and> k \<notin> set (dependencies (instrs s second)))"
  unfolding canMergeReadAfterWrite_def
  by (simp add: canMerge_fold hasEmptyIntersection_iff)

theorem canMergeReadAfterWrite_iff_witness:
  "1 \<in> set (invertedDependencies (instrs
       (enqueue \<lparr>index = 30, metadata = \<lparr>readSet = [7], writeSet = [], priority = 0\<rparr>\<rparr>
         (enqueue \<lparr>index = 20, metadata = \<lparr>readSet = [7], writeSet = [8], priority = 0\<rparr>\<rparr>
           (enqueue \<lparr>index = 10, metadata = \<lparr>readSet = [], writeSet = [7], priority = 0\<rparr>\<rparr>
              newModelTaskQueue))) 0))
   \<and> canMergeReadAfterWrite 0 1
       (enqueue \<lparr>index = 30, metadata = \<lparr>readSet = [7], writeSet = [], priority = 0\<rparr>\<rparr>
         (enqueue \<lparr>index = 20, metadata = \<lparr>readSet = [7], writeSet = [8], priority = 0\<rparr>\<rparr>
           (enqueue \<lparr>index = 10, metadata = \<lparr>readSet = [], writeSet = [7], priority = 0\<rparr>\<rparr>
              newModelTaskQueue)))"
proof -
  let ?s = "enqueue \<lparr>index = 30, metadata = \<lparr>readSet = [7], writeSet = [], priority = 0\<rparr>\<rparr>
         (enqueue \<lparr>index = 20, metadata = \<lparr>readSet = [7], writeSet = [8], priority = 0\<rparr>\<rparr>
           (enqueue \<lparr>index = 10, metadata = \<lparr>readSet = [], writeSet = [7], priority = 0\<rparr>\<rparr>
              newModelTaskQueue))"
  have inv0: "invertedDependencies (instrs ?s 0) = [1, 2]"
    by (simp add: queue_defs)
  have h: "1 \<in> set (invertedDependencies (instrs ?s 0))"
    by (simp add: inv0)
  have "\<forall>k \<in> set (invertedDependencies (instrs ?s 0)). k \<noteq> 1 \<longrightarrow>
        set (readSet (metadata (task (instrs ?s k))))
          \<inter> set (writeSet (metadata (task (instrs ?s 1)))) = {}
        \<and> k \<notin> set (dependencies (instrs ?s 1))"
    using inv0 by (simp add: queue_defs)
  with canMergeReadAfterWrite_iff[OF h] h show ?thesis by blast
qed

subsection \<open>Dequeuing from an empty queue\<close>

text \<open>
  C10: \<open>dequeue\<close> on an empty queue returns \<open>undefined\<close> and the whole state of the
  scheduler (sub-queues, counter and priority generator of the priority-partitioned queue,
  the instructions with their dependency sets, the latest component state map and the
  merger) is the state before the call.
\<close>

theorem dequeue_empty_unchanged:
  "isEmpty s \<Longrightarrow> dequeue s = Some (None, s)"
  by (simp add: isEmpty_def dequeue_def dequeueInstruction_def ppq_dequeue_def)

theorem dequeue_empty_unchanged_witness:
  "isEmpty newModelTaskQueue \<and> dequeue newModelTaskQueue = Some (None, newModelTaskQueue)"
proof -
  have h: "isEmpty newModelTaskQueue"
    by (simp add: isEmpty_def ppq_isEmpty_def newModelTaskQueue_def
        newPriorityPartitionedQueue_def)
  from dequeue_empty_unchanged[OF h] h show ?thesis by simp
qed

subsection \<open>The priority-partitioned queue\<close>

lemma pg_next_inv:
  "pg_inv g \<Longrightarrow> pg_inv (snd (pg_next g)) \<and> pg_min (snd (pg_next g)) = pg_min g
      \<and> pg_max (snd (pg_next g)) = pg_max g"
  by (auto simp: pg_inv_def pg_next_def nextFrontier_def Let_def)

lemma pg_next_decreases:
  "pg_inv g \<Longrightarrow> pg_min g \<le> p \<Longrightarrow> p \<le> pg_max g \<Longrightarrow> current g \<noteq> p \<Longrightarrow>
   pg_rounds p (snd (pg_next g)) < pg_rounds p g
   \<or> pg_rounds p (snd (pg_next g)) = pg_rounds p g \<and> pg_left (snd (pg_next g)) < pg_left g"
  by (auto simp: pg_inv_def pg_next_def nextFrontier_def Let_def pg_rounds_def pg_left_def)

lemma pg_next_fst: "fst (pg_next g) = current g"
  by (simp add: pg_next_def Let_def)

lemma pg_take_Suc_cons:
  "pg_take n (snd (pg_next g)) = (ps, g') \<Longrightarrow> pg_take (Suc n) g = (current g # ps, g')"
  using pg_next_fst[of g] by (cases "pg_next g") simp

lemma pg_take_one: "pg_take (Suc 0) g = ([current g], snd (pg_next g))"
  using pg_next_fst[of g] by (cases "pg_next g") simp

lemma wf_pg_order:
  "wf (inv_image (less_than <*lex*> less_than) (\<lambda>g. (pg_rounds p g, pg_left g)))"
  by (intro wf_inv_image wf_lex_prod wf_less_than)

lemma nextNonEmpty_terminates:
  assumes "getSubQueue sq p \<noteq> []"
  shows "pg_inv g \<Longrightarrow> pg_min g \<le> p \<Longrightarrow> p \<le> pg_max g \<Longrightarrow>
     \<exists>p' g' ps. nextNonEmpty sq g = Some (p', g') \<and> getSubQueue sq p' \<noteq> [] \<and> pg_inv g'
        \<and> pg_min g' = pg_min g \<and> pg_max g' = pg_max g
        \<and> pg_take (Suc (length ps)) g = (ps @ [p'], g')
        \<and> (\<forall>x \<in> set ps. getSubQueue sq x = [])"
proof (induction g rule: wf_induct_rule[OF wf_pg_order[of p]])
  case (1 g)
  let ?g1 = "snd (pg_next g)"
  from pg_next_inv[OF "1.prems"(1)]
  have g1: "pg_inv ?g1" "pg_min ?g1 = pg_min g" "pg_max ?g1 = pg_max g" by auto
  show ?case
  proof (cases "getSubQueue sq (current g) = []")
    case False
    then have "nextNonEmpty sq g = Some (current g, ?g1)"
      by (simp add: nextNonEmpty_hit pg_next_def Let_def)
    then show ?thesis using False g1
      by (intro exI[where x="current g"] exI[where x="?g1"] exI[where x="[]"])
         (simp add: pg_take_one del: pg_take.simps)
  next
    case True
    with assms have ne: "current g \<noteq> p" by auto
    from pg_next_decreases[OF "1.prems" ne]
    have "(?g1, g) \<in> inv_image (less_than <*lex*> less_than) (\<lambda>g. (pg_rounds p g, pg_left g))"
      by auto
    from "1.IH"[OF this g1(1)] "1.prems" g1
    obtain p' g' ps where r: "nextNonEmpty sq ?g1 = Some (p', g')" "getSubQueue sq p' \<noteq> []"
        "pg_inv g'" "pg_min g' = pg_min g" "pg_max g' = pg_max g"
        "pg_take (Suc (length ps)) ?g1 = (ps @ [p'], g')" "\<forall>x \<in> set ps. getSubQueue sq x = []"
      by auto
    have "nextNonEmpty sq g = nextNonEmpty sq ?g1"
      using True by (rule nextNonEmpty_miss)
    moreover have "pg_take (Suc (length (current g # ps))) g = ((current g # ps) @ [p'], g')"
      using pg_take_Suc_cons[OF r(6)] by simp
    moreover have "\<forall>x \<in> set (current g # ps). getSubQueue sq x = []"
      using r(7) True by simp
    ultimately show ?thesis using r(1-5) by metis
  qed
qed

lemma getSubQueue_update:
  "getSubQueue (AList.update k v sq) p = (if p = k then v else getSubQueue sq p)"
  by (simp add: getSubQueue_def update_conv')

lemma finite_nonEmpty: "finite {p. getSubQueue sq p \<noteq> []}"
proof (rule finite_subset)
  show "{p. getSubQueue sq p \<noteq> []} \<subseteq> fst ` set sq"
    by (auto simp: getSubQueue_def split: option.splits dest: map_of_SomeD intro: rev_image_eqI)
qed simp

lemma contents_update:
  "mset (concat (map snd (AList.update k v sq))) + mset (getSubQueue sq k)
     = mset (concat (map snd sq)) + mset v"
  by (induction sq) (auto simp: getSubQueue_def)

lemma notifyPriorityExists_inv:
  "pg_inv g \<Longrightarrow> pg_inv (notifyPriorityExists g p)
     \<and> pg_min (notifyPriorityExists g p) = min (pg_min g) p
     \<and> pg_max (notifyPriorityExists g p) = max (pg_max g) p"
  by (auto simp: pg_inv_def notifyPriorityExists_def Let_def)

lemma ppq_inv_new: "ppq_inv newPriorityPartitionedQueue"
  by (simp add: ppq_inv_def newPriorityPartitionedQueue_def newPriorityGenerator_def
      getSubQueue_def pg_inv_def)

lemma ppq_enqueue_contents:
  "mset (ppq_contents (ppq_enqueue gp q v)) = add_mset v (mset (ppq_contents q))"
proof -
  let ?p = "gp v" and ?sq = "subQueues q"
  have "mset (concat (map snd (AList.update ?p (getSubQueue ?sq ?p @ [v]) ?sq)))
          + mset (getSubQueue ?sq ?p)
        = mset (concat (map snd ?sq)) + mset (getSubQueue ?sq ?p @ [v])"
    by (rule contents_update)
  then have "mset (concat (map snd (AList.update ?p (getSubQueue ?sq ?p @ [v]) ?sq)))
        = add_mset v (mset (concat (map snd ?sq)))"
    by simp
  then show ?thesis
    by (cases "getSubQueue ?sq ?p = []") (auto simp: ppq_contents_def ppq_enqueue_def Let_def)
qed

lemma ppq_enqueue_inv:
  assumes "ppq_inv q"
  shows "ppq_inv (ppq_enqueue gp q v)"
proof -
  let ?p = "gp v" and ?sq = "subQueues q" and ?g = "priorityGen q"
  let ?sq' = "AList.update ?p (getSubQueue ?sq ?p @ [v]) ?sq"
  have ne: "{x. getSubQueue ?sq' x \<noteq> []} = insert ?p {x. getSubQueue ?sq x \<noteq> []}"
    by (auto simp: getSubQueue_update)
  have d: "distinct (map fst ?sq')"
    using assms by (simp add: ppq_inv_def distinct_update)
  show ?thesis
  proof (cases "getSubQueue ?sq ?p = []")
    case True
    then have "card {x. getSubQueue ?sq' x \<noteq> []} = Suc (card {x. getSubQueue ?sq x \<noteq> []})"
      unfolding ne by (simp add: finite_nonEmpty)
    moreover note notifyPriorityExists_inv[of ?g ?p]
    ultimately show ?thesis
      using assms True d
      by (auto simp: ppq_inv_def ppq_enqueue_def Let_def getSubQueue_update)
  next
    case False
    then have "{x. getSubQueue ?sq' x \<noteq> []} = {x. getSubQueue ?sq x \<noteq> []}"
      unfolding ne by auto
    then show ?thesis
      using assms False d
      by (auto simp: ppq_inv_def ppq_enqueue_def Let_def getSubQueue_update)
  qed
qed

lemma ppq_isEmpty_iff:
  assumes "ppq_inv q"
  shows "ppq_isEmpty q \<longleftrightarrow> ppq_contents q = []"
proof -
  let ?sq = "subQueues q"
  have d: "distinct (map fst ?sq)" using assms by (simp add: ppq_inv_def)
  have "ppq_isEmpty q \<longleftrightarrow> {p. getSubQueue ?sq p \<noteq> []} = {}"
    using assms by (simp add: ppq_inv_def ppq_isEmpty_def finite_nonEmpty)
  also have "\<dots> \<longleftrightarrow> (\<forall>kv \<in> set ?sq. snd kv = [])"
  proof
    assume e: "{p. getSubQueue ?sq p \<noteq> []} = {}"
    show "\<forall>kv \<in> set ?sq. snd kv = []"
    proof
      fix kv assume "kv \<in> set ?sq"
      then have "map_of ?sq (fst kv) = Some (snd kv)" using d by simp
      then have "getSubQueue ?sq (fst kv) = snd kv" by (simp add: getSubQueue_def)
      with e show "snd kv = []" by auto
    qed
  next
    assume a: "\<forall>kv \<in> set ?sq. snd kv = []"
    show "{p. getSubQueue ?sq p \<noteq> []} = {}"
      using a by (auto simp: getSubQueue_def split: option.splits dest!: map_of_SomeD)
  qed
  also have "\<dots> \<longleftrightarrow> ppq_contents q = []"
    by (auto simp: ppq_contents_def)
  finally show ?thesis .
qed

lemma ppq_dequeue_nonEmpty:
  assumes "ppq_inv q" and "\<not> ppq_isEmpty q"
  shows "\<exists>p g1 x rest ps q'.
           ppq_dequeue q = Some (Some x, q')
           \<and> q' = q\<lparr>priorityGen := g1,
                    subQueues := AList.update p rest (subQueues q),
                    nonEmptySubQueueCount :=
                      (if rest = [] then nonEmptySubQueueCount q - 1
                       else nonEmptySubQueueCount q)\<rparr>
           \<and> getSubQueue (subQueues q) p = x # rest
           \<and> pg_take (Suc (length ps)) (priorityGen q) = (ps @ [p], g1)
           \<and> (\<forall>y \<in> set ps. getSubQueue (subQueues q) y = [])
           \<and> ppq_inv q'
           \<and> mset (ppq_contents q) = add_mset x (mset (ppq_contents q'))"
proof -
  let ?sq = "subQueues q" and ?g = "priorityGen q"
  have "card {p. getSubQueue ?sq p \<noteq> []} \<noteq> 0"
    using assms by (simp add: ppq_inv_def ppq_isEmpty_def)
  then obtain p0 where p0: "getSubQueue ?sq p0 \<noteq> []"
    by (auto simp: finite_nonEmpty)
  with assms(1) have r0: "pg_min ?g \<le> p0" "p0 \<le> pg_max ?g" and gi: "pg_inv ?g"
    by (auto simp: ppq_inv_def)
  from nextNonEmpty_terminates[OF p0 gi r0]
  obtain p g1 ps where n: "nextNonEmpty ?sq ?g = Some (p, g1)" "getSubQueue ?sq p \<noteq> []"
      "pg_inv g1" "pg_min g1 = pg_min ?g" "pg_max g1 = pg_max ?g"
      "pg_take (Suc (length ps)) ?g = (ps @ [p], g1)" "\<forall>x \<in> set ps. getSubQueue ?sq x = []"
    by blast
  from n(2) obtain x rest where xr: "getSubQueue ?sq p = x # rest"
    by (cases "getSubQueue ?sq p") auto
  define q' where "q' = q\<lparr>priorityGen := g1,
                    subQueues := AList.update p rest ?sq,
                    nonEmptySubQueueCount :=
                      (if rest = [] then nonEmptySubQueueCount q - 1
                       else nonEmptySubQueueCount q)\<rparr>"
  have dq: "ppq_dequeue q = Some (Some x, q')"
    using assms(2) n(1) xr by (simp add: ppq_dequeue_def q'_def)
  have ne: "{y. getSubQueue (AList.update p rest ?sq) y \<noteq> []}
      = (if rest = [] then {y. getSubQueue ?sq y \<noteq> []} - {p} else {y. getSubQueue ?sq y \<noteq> []})"
    using xr by (auto simp: getSubQueue_update)
  have pin: "p \<in> {y. getSubQueue ?sq y \<noteq> []}" using xr by simp
  have cnt: "nonEmptySubQueueCount q' = int (card {y. getSubQueue (subQueues q') y \<noteq> []})"
  proof (cases "rest = []")
    case True
    have "card ({y. getSubQueue ?sq y \<noteq> []} - {p}) = card {y. getSubQueue ?sq y \<noteq> []} - 1"
      using pin by (simp add: finite_nonEmpty)
    moreover have "card {y. getSubQueue ?sq y \<noteq> []} \<noteq> 0"
      using pin finite_nonEmpty[of ?sq] by auto
    ultimately show ?thesis
      using assms(1) True ne by (simp add: q'_def ppq_inv_def)
  next
    case False
    then show ?thesis using assms(1) ne by (simp add: q'_def ppq_inv_def)
  qed
  have rng: "\<forall>y. getSubQueue (subQueues q') y \<noteq> [] \<longrightarrow>
            pg_min (priorityGen q') \<le> y \<and> y \<le> pg_max (priorityGen q')"
    using assms(1) n(4,5) xr by (auto simp: q'_def ppq_inv_def getSubQueue_update)
  have inv': "ppq_inv q'"
    using cnt rng n(3) assms(1) by (simp add: ppq_inv_def q'_def distinct_update)
  have "mset (concat (map snd (AList.update p rest ?sq))) + mset (getSubQueue ?sq p)
     = mset (concat (map snd ?sq)) + mset rest"
    by (rule contents_update)
  then have ms: "mset (ppq_contents q) = add_mset x (mset (ppq_contents q'))"
    using xr by (simp add: ppq_contents_def q'_def)
  show ?thesis
    using dq xr n(6,7) inv' ms q'_def by blast
qed

subsection \<open>The effect of the loops of the task queue\<close>

lemma mapDependencies_simps:
  "allocated (mapDependencies i f s) = allocated s"
  "eligibleInstructions (mapDependencies i f s) = eligibleInstructions s"
  "latestComponentStateMap (mapDependencies i f s) = latestComponentStateMap s"
  "merger (mapDependencies i f s) = merger s"
  "task (instrs (mapDependencies i f s) h) = task (instrs s h)"
  "invertedDependencies (instrs (mapDependencies i f s) h) = invertedDependencies (instrs s h)"
  "dependencies (instrs (mapDependencies i f s) h)
     = (if h = i then f (dependencies (instrs s i)) else dependencies (instrs s h))"
  by (simp_all add: mapDependencies_def)

lemma mapInvertedDependencies_simps:
  "allocated (mapInvertedDependencies i f s) = allocated s"
  "eligibleInstructions (mapInvertedDependencies i f s) = eligibleInstructions s"
  "latestComponentStateMap (mapInvertedDependencies i f s) = latestComponentStateMap s"
  "merger (mapInvertedDependencies i f s) = merger s"
  "task (instrs (mapInvertedDependencies i f s) h) = task (instrs s h)"
  "dependencies (instrs (mapInvertedDependencies i f s) h) = dependencies (instrs s h)"
  "invertedDependencies (instrs (mapInvertedDependencies i f s) h)
     = (if h = i then f (invertedDependencies (instrs s i)) else invertedDependencies (instrs s h))"
  by (simp_all add: mapInvertedDependencies_def)

lemmas map_simps = mapDependencies_simps mapInvertedDependencies_simps

lemma set_set_add: "set (set_add xs x) = insert x (set xs)"
  by (auto simp: set_add_def)

lemma distinct_set_add: "distinct xs \<Longrightarrow> distinct (set_add xs x)"
  by (auto simp: set_add_def)

lemma addDependency_simps:
  "allocated (addDependency i c s) = allocated s"
  "eligibleInstructions (addDependency i c s) = eligibleInstructions s"
  "latestComponentStateMap (addDependency i c s) = latestComponentStateMap s"
  "merger (addDependency i c s) = merger s"
  "task (instrs (addDependency i c s) h) = task (instrs s h)"
  "set (dependencies (instrs (addDependency i c s) h))
     = set (dependencies (instrs s h))
       \<union> (if h = i then {d. latestComponentStateMap s c = Some d} else {})"
  "set (invertedDependencies (instrs (addDependency i c s) h))
     = set (invertedDependencies (instrs s h))
       \<union> (if latestComponentStateMap s c = Some h then {i} else {})"
  by (auto simp: addDependency_def map_simps set_set_add split: option.splits)

lemma addDependency_distinct:
  "distinct (invertedDependencies (instrs s h)) \<Longrightarrow>
   distinct (invertedDependencies (instrs (addDependency i c s) h))"
  by (auto simp: addDependency_def map_simps distinct_set_add split: option.splits)

lemma fold_addDependency:
  "allocated (fold (addDependency i) cs s) = allocated s"
  "eligibleInstructions (fold (addDependency i) cs s) = eligibleInstructions s"
  "latestComponentStateMap (fold (addDependency i) cs s) = latestComponentStateMap s"
  "merger (fold (addDependency i) cs s) = merger s"
  "task (instrs (fold (addDependency i) cs s) h) = task (instrs s h)"
  by (induction cs arbitrary: s; simp add: addDependency_simps)+

lemma fold_addDependency_deps:
  "set (dependencies (instrs (fold (addDependency i) cs s) h))
     = set (dependencies (instrs s h))
       \<union> (if h = i then {d. \<exists>c \<in> set cs. latestComponentStateMap s c = Some d} else {})"
  by (induction cs arbitrary: s) (auto simp: addDependency_simps)

lemma fold_addDependency_invdeps:
  "set (invertedDependencies (instrs (fold (addDependency i) cs s) h))
     = set (invertedDependencies (instrs s h))
       \<union> (if \<exists>c \<in> set cs. latestComponentStateMap s c = Some h then {i} else {})"
  by (induction cs arbitrary: s) (auto simp: addDependency_simps)

lemma fold_addDependency_distinct:
  "distinct (invertedDependencies (instrs s h)) \<Longrightarrow>
   distinct (invertedDependencies (instrs (fold (addDependency i) cs s) h))"
  by (induction cs arbitrary: s) (auto simp: addDependency_distinct)

lemma fold_setLatest:
  "allocated (fold (setLatest i) cs s) = allocated s"
  "eligibleInstructions (fold (setLatest i) cs s) = eligibleInstructions s"
  "instrs (fold (setLatest i) cs s) = instrs s"
  "merger (fold (setLatest i) cs s) = merger s"
  "latestComponentStateMap (fold (setLatest i) cs s) c
     = (if c \<in> set cs then Some i else latestComponentStateMap s c)"
  by (induction cs arbitrary: s; simp add: setLatest_def)+

lemma fold_clearLatest:
  "allocated (fold (clearLatest i) cs s) = allocated s"
  "eligibleInstructions (fold (clearLatest i) cs s) = eligibleInstructions s"
  "instrs (fold (clearLatest i) cs s) = instrs s"
  "merger (fold (clearLatest i) cs s) = merger s"
  "latestComponentStateMap (fold (clearLatest i) cs s) c
     = (if c \<in> set cs \<and> latestComponentStateMap s c = Some i then None
        else latestComponentStateMap s c)"
  by (induction cs arbitrary: s; simp add: clearLatest_def)+

lemma release_simps:
  "allocated (release i j s) = allocated s"
  "latestComponentStateMap (release i j s) = latestComponentStateMap s"
  "merger (release i j s) = merger s"
  "task (instrs (release i j s) h) = task (instrs s h)"
  "invertedDependencies (instrs (release i j s) h) = invertedDependencies (instrs s h)"
  "dependencies (instrs (release i j s) h)
     = (if h = j then removeAll i (dependencies (instrs s h)) else dependencies (instrs s h))"
  by (simp_all add: release_def Let_def map_simps set_remove_def)

lemma release_ppq:
  "ppq_inv (eligibleInstructions s) \<Longrightarrow> ppq_inv (eligibleInstructions (release i j s))"
  "mset (ppq_contents (eligibleInstructions (release i j s)))
     = mset (ppq_contents (eligibleInstructions s))
       + (if removeAll i (dependencies (instrs s j)) = [] then {#j#} else {#})"
  by (simp_all add: release_def Let_def map_simps set_remove_def isEligibleForExecution_def
      ppq_enqueue_inv ppq_enqueue_contents)

lemma fold_release:
  "allocated (fold (release i) js s) = allocated s"
  "latestComponentStateMap (fold (release i) js s) = latestComponentStateMap s"
  "merger (fold (release i) js s) = merger s"
  "task (instrs (fold (release i) js s) h) = task (instrs s h)"
  "invertedDependencies (instrs (fold (release i) js s) h) = invertedDependencies (instrs s h)"
  by (induction js arbitrary: s; simp add: release_simps)+

lemma fold_release_deps:
  "dependencies (instrs (fold (release i) js s) h)
     = (if h \<in> set js then removeAll i (dependencies (instrs s h)) else dependencies (instrs s h))"
  by (induction js arbitrary: s) (auto simp: release_simps)

lemma fold_release_inv:
  "ppq_inv (eligibleInstructions s) \<Longrightarrow> ppq_inv (eligibleInstructions (fold (release i) js s))"
  by (induction js arbitrary: s) (auto simp: release_ppq)

lemma fold_release_contents:
  "mset (ppq_contents (eligibleInstructions (fold (release i) js s)))
     = mset (ppq_contents (eligibleInstructions s))
       + mset (filter (\<lambda>j. removeAll i (dependencies (instrs s j)) = []) js)"
proof (induction js arbitrary: s)
  case Nil
  then show ?case by simp
next
  case (Cons j js)
  have "filter (\<lambda>k. removeAll i (dependencies (instrs (release i j s) k)) = []) js
      = filter (\<lambda>k. removeAll i (dependencies (instrs s k)) = []) js"
    by (rule filter_cong) (auto simp: release_simps)
  then show ?case
    by (simp add: Cons.IH release_ppq)
qed

lemma introduceInstruction_simps:
  "allocated (introduceInstruction i s) = allocated s"
  "eligibleInstructions (introduceInstruction i s) = eligibleInstructions s"
  "latestComponentStateMap (introduceInstruction i s) = latestComponentStateMap s"
  "instrs (introduceInstruction i s) = instrs s"
  "rewriters (merger (introduceInstruction i s)) = rewriters (merger s)"
  by (simp_all add: introduceInstruction_def)

lemma completeInstruction_simps:
  "allocated (completeInstruction i s) = allocated s"
  "eligibleInstructions (completeInstruction i s) = eligibleInstructions s"
  "latestComponentStateMap (completeInstruction i s) = latestComponentStateMap s"
  "instrs (completeInstruction i s) = instrs s"
  "rewriters (merger (completeInstruction i s)) = rewriters (merger s)"
  "interestSets (merger (completeInstruction i s)) = map (\<lambda>x. removeAll i x) (interestSets (merger s))"
  by (simp_all add: completeInstruction_def set_remove_def)

lemma enqueue_simps:
  "allocated (enqueue t s) = Suc (allocated s)"
  "task (instrs (enqueue t s) h) = (if h = allocated s then t else task (instrs s h))"
  "latestComponentStateMap (enqueue t s) c
     = (if c \<in> set (writeSet (metadata t)) then Some (allocated s)
        else latestComponentStateMap s c)"
  "rewriters (merger (enqueue t s)) = rewriters (merger s)"
  by (simp_all add: enqueue_def Let_def introduceInstruction_simps fold_setLatest
      fold_addDependency newTaskInstruction_def)

lemma enqueue_instrs:
  "instrs (enqueue t s)
     = instrs (fold (addDependency (allocated s)) (readSet (metadata t))
         (s\<lparr>instrs := (instrs s)(allocated s := newTaskInstruction t),
            allocated := Suc (allocated s)\<rparr>))"
  by (simp add: enqueue_def Let_def introduceInstruction_simps fold_setLatest)

lemma enqueue_deps:
  "set (dependencies (instrs (enqueue t s) h))
     = (if h = allocated s then newDependencies t s else set (dependencies (instrs s h)))"
  unfolding enqueue_instrs fold_addDependency_deps
  by (simp add: newTaskInstruction_def newDependencies_def)

lemma enqueue_invdeps:
  "set (invertedDependencies (instrs (enqueue t s) h))
     = (if h = allocated s then {} else set (invertedDependencies (instrs s h)))
       \<union> (if h \<in> newDependencies t s then {allocated s} else {})"
  unfolding enqueue_instrs fold_addDependency_invdeps
  by (simp add: newTaskInstruction_def newDependencies_def)

lemma enqueue_distinct:
  "distinct (invertedDependencies (instrs s h)) \<Longrightarrow>
   distinct (invertedDependencies (instrs (enqueue t s) h))"
  unfolding enqueue_instrs
  by (rule fold_addDependency_distinct) (simp add: newTaskInstruction_def)

lemma enqueue_ppq_inv:
  "ppq_inv (eligibleInstructions s) \<Longrightarrow> ppq_inv (eligibleInstructions (enqueue t s))"
  by (simp add: enqueue_def Let_def introduceInstruction_simps fold_setLatest
      fold_addDependency ppq_enqueue_inv)

lemma enqueue_contents:
  "mset (ppq_contents (eligibleInstructions (enqueue t s)))
     = mset (ppq_contents (eligibleInstructions s))
       + (if newDependencies t s = {} then {#allocated s#} else {#})"
proof -
  let ?i = "allocated s"
  let ?s1 = "s\<lparr>instrs := (instrs s)(?i := newTaskInstruction t), allocated := Suc ?i\<rparr>"
  let ?s3 = "fold (setLatest ?i) (writeSet (metadata t))
               (fold (addDependency ?i) (readSet (metadata t)) ?s1)"
  have "set (dependencies (instrs ?s3 ?i)) = newDependencies t s"
    by (simp add: fold_setLatest fold_addDependency_deps newTaskInstruction_def
        newDependencies_def)
  then have "isEligibleForExecution (instrs ?s3 ?i) \<longleftrightarrow> newDependencies t s = {}"
    by (metis isEligibleForExecution_def set_empty)
  then show ?thesis
    by (simp add: enqueue_def Let_def introduceInstruction_simps fold_setLatest
        fold_addDependency ppq_enqueue_contents)
qed

lemma complete_simps:
  "allocated (complete i s) = allocated s"
  "task (instrs (complete i s) h) = task (instrs s h)"
  "rewriters (merger (complete i s)) = rewriters (merger s)"
  "interestSets (merger (complete i s)) = map (\<lambda>x. removeAll i x) (interestSets (merger s))"
  "invertedDependencies (instrs (complete i s) h)
     = (if h = i then [] else invertedDependencies (instrs s h))"
  "dependencies (instrs (complete i s) h)
     = (if h \<in> set (invertedDependencies (instrs s i))
        then removeAll i (dependencies (instrs s h)) else dependencies (instrs s h))"
  "latestComponentStateMap (complete i s) c
     = (if c \<in> set (writeSet (metadata (task (instrs s i))))
           \<and> latestComponentStateMap s c = Some i
        then None else latestComponentStateMap s c)"
  by (simp_all add: complete_def Let_def fold_clearLatest map_simps fold_release
      fold_release_deps completeInstruction_simps)

lemma complete_ppq_inv:
  "ppq_inv (eligibleInstructions s) \<Longrightarrow> ppq_inv (eligibleInstructions (complete i s))"
  by (simp add: complete_def Let_def fold_clearLatest map_simps fold_release_inv
      completeInstruction_simps)

lemma complete_contents:
  "mset (ppq_contents (eligibleInstructions (complete i s)))
     = mset (ppq_contents (eligibleInstructions s))
       + mset (filter (\<lambda>j. removeAll i (dependencies (instrs s j)) = [])
                 (invertedDependencies (instrs s i)))"
  by (simp add: complete_def Let_def fold_clearLatest map_simps fold_release_contents
      completeInstruction_simps)

subsection \<open>The invariant of the dependency graph\<close>

lemma enqueue_deps_Nil:
  "dependencies (instrs (enqueue t s) h) = []
     \<longleftrightarrow> (if h = allocated s then newDependencies t s = {} else dependencies (instrs s h) = [])"
  using enqueue_deps[of t s h] by (auto simp del: set_empty simp: set_empty[symmetric])

lemma enqueue_invdeps_Nil:
  "invertedDependencies (instrs (enqueue t s) h) = []
     \<longleftrightarrow> (h = allocated s \<or> invertedDependencies (instrs s h) = []) \<and> h \<notin> newDependencies t s"
  using enqueue_invdeps[of t s h] by (auto simp del: set_empty simp: set_empty[symmetric])

lemma newDependencies_allocated:
  "graph_inv s \<Longrightarrow> d \<in> newDependencies t s \<Longrightarrow> d < allocated s"
  by (auto simp: graph_inv_def newDependencies_def)

lemma graph_inv_new: "graph_inv newModelTaskQueue"
  by (simp add: graph_inv_def newModelTaskQueue_def ppq_inv_new newTaskInstruction_def)

lemma graph_inv_enqueue:
  assumes "graph_inv s"
  shows "graph_inv (enqueue t s)"
proof -
  let ?n = "allocated s"
  have nd: "\<And>d. d \<in> newDependencies t s \<Longrightarrow> d < ?n"
    using assms by (rule newDependencies_allocated)
  have un: "\<And>h. ?n \<le> h \<Longrightarrow> dependencies (instrs s h) = [] \<and> invertedDependencies (instrs s h) = []"
    using assms by (simp add: graph_inv_def)
  have mir: "\<And>i j. j \<in> set (dependencies (instrs s i)) \<longleftrightarrow> i \<in> set (invertedDependencies (instrs s j))"
    using assms by (simp add: graph_inv_def)
  have 1: "ppq_inv (eligibleInstructions (enqueue t s))"
    using assms by (simp add: graph_inv_def enqueue_ppq_inv)
  have 2: "j \<in> set (dependencies (instrs (enqueue t s) i))
            \<longleftrightarrow> i \<in> set (invertedDependencies (instrs (enqueue t s) j))" for i j
  proof (cases "i = ?n")
    case True
    have "?n \<notin> set (invertedDependencies (instrs s j))"
      using mir[where i="?n" and j=j] un[of ?n] by simp
    with True show ?thesis by (auto simp: enqueue_deps enqueue_invdeps)
  next
    case False
    have "j \<in> set (dependencies (instrs s i)) \<Longrightarrow> j \<noteq> ?n"
      using mir[where i=i and j="?n"] un[of ?n] by auto
    with False show ?thesis using mir[where i=i and j=j] by (auto simp: enqueue_deps enqueue_invdeps)
  qed
  have 3: "distinct (invertedDependencies (instrs (enqueue t s) h))" for h
    using assms by (simp add: graph_inv_def enqueue_distinct)
  have 4: "dependencies (instrs (enqueue t s) h) = [] \<and> invertedDependencies (instrs (enqueue t s) h) = []"
    if "allocated (enqueue t s) \<le> h" for h
    using that un[of h] nd[of h] by (auto simp: enqueue_simps enqueue_deps_Nil enqueue_invdeps_Nil)
  have 5: "d < allocated (enqueue t s) \<and> c \<in> set (writeSet (metadata (task (instrs (enqueue t s) d))))"
    if "latestComponentStateMap (enqueue t s) c = Some d" for c d
  proof -
    have lat: "\<And>c d. latestComponentStateMap s c = Some d \<Longrightarrow>
        d < allocated s \<and> c \<in> set (writeSet (metadata (task (instrs s d))))"
      using assms by (simp add: graph_inv_def)
    show ?thesis
    proof (cases "c \<in> set (writeSet (metadata t))")
      case True
      with that show ?thesis by (simp add: enqueue_simps)
    next
      case False
      with that have "latestComponentStateMap s c = Some d" by (simp add: enqueue_simps)
      from lat[OF this] show ?thesis by (simp add: enqueue_simps)
    qed
  qed
  show ?thesis
    unfolding graph_inv_def using 1 2 3 4 5 by blast
qed

lemma graph_inv_complete:
  assumes "graph_inv s"
  shows "graph_inv (complete i s)"
proof -
  have mir: "\<And>i j. j \<in> set (dependencies (instrs s i)) \<longleftrightarrow> i \<in> set (invertedDependencies (instrs s j))"
    using assms by (simp add: graph_inv_def)
  have 1: "ppq_inv (eligibleInstructions (complete i s))"
    using assms by (simp add: graph_inv_def complete_ppq_inv)
  have 2: "j \<in> set (dependencies (instrs (complete i s) k))
            \<longleftrightarrow> k \<in> set (invertedDependencies (instrs (complete i s) j))" for k j
    using mir[where i=k and j=j] mir[where i=k and j=i] by (auto simp: complete_simps)
  have 3: "distinct (invertedDependencies (instrs (complete i s) h))" for h
    using assms by (simp add: graph_inv_def complete_simps)
  have 4: "dependencies (instrs (complete i s) h) = [] \<and> invertedDependencies (instrs (complete i s) h) = []"
    if "allocated (complete i s) \<le> h" for h
    using that assms by (auto simp: complete_simps graph_inv_def)
  have 5: "d < allocated (complete i s) \<and> c \<in> set (writeSet (metadata (task (instrs (complete i s) d))))"
    if "latestComponentStateMap (complete i s) c = Some d" for c d
    using that assms by (auto simp: complete_simps graph_inv_def split: if_splits)
  show ?thesis
    unfolding graph_inv_def using 1 2 3 4 5 by blast
qed

subsection \<open>The invariant of a run\<close>

lemma map_filter_append:
  "List.map_filter f (xs @ ys) = List.map_filter f xs @ List.map_filter f ys"
  by (simp add: List.map_filter_def)

lemma run_inv_new: "run_inv newRun"
  by (simp add: run_inv_def newRun_def graph_inv_new)
     (simp add: newModelTaskQueue_def newPriorityPartitionedQueue_def ppq_contents_def
        List.map_filter_def)

lemma registerRewriter_simps:
  "allocated (registerRewriter w s) = allocated s"
  "eligibleInstructions (registerRewriter w s) = eligibleInstructions s"
  "latestComponentStateMap (registerRewriter w s) = latestComponentStateMap s"
  "instrs (registerRewriter w s) = instrs s"
  by (simp_all add: registerRewriter_def)

lemma graph_inv_register: "graph_inv (registerRewriter w s) = graph_inv s"
  by (simp add: graph_inv_def registerRewriter_simps)

lemma run_inv_register:
  assumes "run_inv r"
  shows "run_inv (r\<lparr>queue := registerRewriter w (queue r)\<rparr>)"
  using assms by (simp add: run_inv_def graph_inv_register registerRewriter_simps)

lemma run_inv_enqueue:
  assumes "run_inv r"
  shows "run_inv (r\<lparr>queue := enqueue t (queue r), enqueuedTasks := enqueuedTasks r @ [t]\<rparr>)"
proof -
  let ?s = "queue r" and ?s' = "enqueue t (queue r)"
  let ?n = "allocated ?s"
  let ?P = "ppq_contents (eligibleInstructions ?s)" and ?L = "dequeued r"
  let ?P' = "ppq_contents (eligibleInstructions ?s')"
  let ?E = "enqueuedTasks r"
  from assms have g: "graph_inv ?s" and d: "distinct (?P @ ?L)"
    and m: "\<And>h. h \<in> set ?P \<union> set ?L \<longleftrightarrow> h < ?n \<and> dependencies (instrs ?s h) = []"
    and l: "\<And>c d. latestComponentStateMap ?s c = Some d \<Longrightarrow> d \<notin> set ?L"
    and a: "?n = length ?E" and tk: "\<And>h. h < ?n \<Longrightarrow> task (instrs ?s h) = ?E ! h"
    and rt: "List.map_filter id (returned r) = map (\<lambda>h. ?E ! h) ?L"
    by (auto simp: run_inv_def)
  have nfresh: "?n \<notin> set ?P \<union> set ?L" using m[of ?n] by simp
  have ms: "mset ?P' = mset ?P + (if newDependencies t ?s = {} then {#?n#} else {#})"
    by (rule enqueue_contents)
  then have "set_mset (mset ?P') = set_mset (mset ?P + (if newDependencies t ?s = {} then {#?n#} else {#}))"
    by simp
  then have sP: "set ?P' = set ?P \<union> (if newDependencies t ?s = {} then {?n} else {})"
    by (simp split: if_splits)
  have 1: "graph_inv ?s'" using g by (rule graph_inv_enqueue)
  have 2: "distinct (?P' @ ?L)"
  proof (cases "newDependencies t ?s = {}")
    case True
    then have "mset (?P' @ ?L) = mset (?n # ?P @ ?L)" using ms by simp
    moreover have "distinct (?n # ?P @ ?L)" using d nfresh by simp
    ultimately show ?thesis by (metis mset_eq_imp_distinct_iff)
  next
    case False
    then have "mset (?P' @ ?L) = mset (?P @ ?L)" using ms by simp
    with d show ?thesis by (metis mset_eq_imp_distinct_iff)
  qed
  have 3: "h \<in> set ?P' \<union> set ?L \<longleftrightarrow> h < allocated ?s' \<and> dependencies (instrs ?s' h) = []" for h
    using m[of h] nfresh by (auto simp: sP enqueue_simps enqueue_deps_Nil less_Suc_eq)
  have 4: "d \<notin> set ?L" if "latestComponentStateMap ?s' c = Some d" for c d
    using that l[of c d] nfresh by (auto simp: enqueue_simps split: if_splits)
  have 5: "allocated ?s' = length (?E @ [t])" using a by (simp add: enqueue_simps)
  have 6: "task (instrs ?s' h) = (?E @ [t]) ! h" if "h < allocated ?s'" for h
    using that a tk[of h] by (auto simp: enqueue_simps nth_append less_Suc_eq)
  have "map (\<lambda>h. (?E @ [t]) ! h) ?L = map (\<lambda>h. ?E ! h) ?L"
  proof (rule map_cong[OF refl])
    fix h assume "h \<in> set ?L"
    then have "h < length ?E" using m[of h] a by auto
    then show "(?E @ [t]) ! h = ?E ! h" by (simp add: nth_append)
  qed
  with rt have 7: "List.map_filter id (returned r) = map (\<lambda>h. (?E @ [t]) ! h) ?L" by simp
  show ?thesis
    unfolding run_inv_def using 1 2 3 4 5 6 7 by simp
qed

lemma dequeueInstruction_empty:
  "ppq_isEmpty (eligibleInstructions s) \<Longrightarrow> dequeueInstruction s = Some (None, s)"
  by (simp add: dequeueInstruction_def ppq_dequeue_def)

lemma dequeueInstruction_nonEmpty:
  assumes "ppq_inv (eligibleInstructions s)" and "\<not> ppq_isEmpty (eligibleInstructions s)"
  shows "\<exists>x q'. ppq_dequeue (eligibleInstructions s) = Some (Some x, q')
           \<and> dequeueInstruction s = Some (Some x, complete x (s\<lparr>eligibleInstructions := q'\<rparr>))
           \<and> ppq_inv q'
           \<and> mset (ppq_contents (eligibleInstructions s)) = add_mset x (mset (ppq_contents q'))"
proof -
  from ppq_dequeue_nonEmpty[OF assms] obtain x q' where
    "ppq_dequeue (eligibleInstructions s) = Some (Some x, q')" "ppq_inv q'"
    "mset (ppq_contents (eligibleInstructions s)) = add_mset x (mset (ppq_contents q'))"
    by blast
  then show ?thesis by (auto simp: dequeueInstruction_def)
qed

lemma graph_inv_eligible:
  "graph_inv s \<Longrightarrow> ppq_inv q \<Longrightarrow> graph_inv (s\<lparr>eligibleInstructions := q\<rparr>)"
  by (simp add: graph_inv_def)

lemma run_inv_dequeued:
  assumes inv: "run_inv r"
    and dq: "ppq_dequeue (eligibleInstructions (queue r)) = Some (Some x, q')"
    and q': "ppq_inv q'"
    and msq: "mset (ppq_contents (eligibleInstructions (queue r))) = add_mset x (mset (ppq_contents q'))"
  shows "run_inv (r\<lparr>queue := complete x (queue r\<lparr>eligibleInstructions := q'\<rparr>),
             returned := returned r
                @ [Some (task (instrs (complete x (queue r\<lparr>eligibleInstructions := q'\<rparr>)) x))],
             dequeued := dequeued r @ [x]\<rparr>)"
proof -
  let ?s = "queue r"
  let ?sa = "?s\<lparr>eligibleInstructions := q'\<rparr>"
  let ?s' = "complete x ?sa"
  let ?n = "allocated ?s"
  let ?P = "ppq_contents (eligibleInstructions ?s)" and ?L = "dequeued r"
  let ?P' = "ppq_contents (eligibleInstructions ?s')"
  let ?E = "enqueuedTasks r"
  let ?V = "invertedDependencies (instrs ?s x)"
  let ?R = "filter (\<lambda>j. removeAll x (dependencies (instrs ?s j)) = []) ?V"
  from inv have g: "graph_inv ?s" and d: "distinct (?P @ ?L)"
    and m: "\<And>h. h \<in> set ?P \<union> set ?L \<longleftrightarrow> h < ?n \<and> dependencies (instrs ?s h) = []"
    and l: "\<And>c d. latestComponentStateMap ?s c = Some d \<Longrightarrow> d \<notin> set ?L"
    and a: "?n = length ?E" and tk: "\<And>h. h < ?n \<Longrightarrow> task (instrs ?s h) = ?E ! h"
    and rt: "List.map_filter id (returned r) = map (\<lambda>h. ?E ! h) ?L"
    by (auto simp: run_inv_def)
  from g have mir: "\<And>i j. j \<in> set (dependencies (instrs ?s i))
        \<longleftrightarrow> i \<in> set (invertedDependencies (instrs ?s j))"
    and dV: "distinct ?V"
    and un: "\<And>h. ?n \<le> h \<Longrightarrow> dependencies (instrs ?s h) = []"
    and lat: "\<And>c d. latestComponentStateMap ?s c = Some d \<Longrightarrow>
        c \<in> set (writeSet (metadata (task (instrs ?s d))))"
    by (auto simp: graph_inv_def)
  have xP: "x \<in> set ?P"
    using msq by (metis mset_eq_setD list.set_intros(1) mset.simps(2))
  then have xn: "x < ?n" and xD: "dependencies (instrs ?s x) = []"
    using m[of x] by auto
  have Vdep: "x \<in> set (dependencies (instrs ?s j))" if "j \<in> set ?V" for j
    using that mir[where i=j and j=x] by simp
  have Vout: "j \<notin> set ?P \<union> set ?L" if "j \<in> set ?V" for j
    using Vdep[OF that] m[of j] by auto
  have Vn: "j < ?n" if "j \<in> set ?V" for j
    using Vdep[OF that] un[of j] by (cases "j < ?n") auto
  have msP': "mset ?P' = mset (ppq_contents q') + mset ?R"
    by (simp add: complete_contents)
  have msAll: "mset (?P' @ ?L @ [x]) = mset (?P @ ?L @ ?R)"
    using msP' msq by simp
  have dAll: "distinct (?P @ ?L @ ?R)"
    using d dV Vout by auto
  have setAll: "set ?P' \<union> set (?L @ [x]) = set ?P \<union> set ?L \<union> set ?R"
    using mset_eq_setD[OF msAll] by auto
  have 1: "graph_inv ?s'"
    using g q' by (intro graph_inv_complete graph_inv_eligible)
  have 2: "distinct (?P' @ ?L @ [x])"
    using msAll dAll by (metis mset_eq_imp_distinct_iff)
  have 3: "h \<in> set ?P' \<union> set (?L @ [x]) \<longleftrightarrow> h < allocated ?s' \<and> dependencies (instrs ?s' h) = []"
    for h
  proof (cases "h \<in> set ?V")
    case True
    then show ?thesis
      unfolding setAll using Vout[OF True] Vn[OF True] by (auto simp: complete_simps)
  next
    case False
    then show ?thesis
      unfolding setAll using m[of h] by (auto simp: complete_simps)
  qed
  have 4: "d \<notin> set (?L @ [x])" if "latestComponentStateMap ?s' c = Some d" for c d
  proof -
    from that have old: "latestComponentStateMap ?s c = Some d"
      and nx: "\<not> (c \<in> set (writeSet (metadata (task (instrs ?s x)))) \<and> d = x)"
      by (auto simp: complete_simps split: if_splits)
    from lat[OF old] nx have "d \<noteq> x" by auto
    with l[OF old] show ?thesis by simp
  qed
  have 5: "allocated ?s' = length ?E" using a by (simp add: complete_simps)
  have 6: "task (instrs ?s' h) = ?E ! h" if "h < allocated ?s'" for h
    using that tk[of h] by (simp add: complete_simps)
  have 7: "List.map_filter id (returned r @ [Some (task (instrs ?s' x))])
          = map (\<lambda>h. ?E ! h) (?L @ [x])"
    using rt tk[OF xn] by (simp add: map_filter_append List.map_filter_def complete_simps)
  show ?thesis
    unfolding run_inv_def using 1 2 3 4 5 6 7 by simp
qed

lemma run_inv_apply_op:
  assumes "run_inv r"
  shows "\<exists>r'. apply_op x r = Some r' \<and> run_inv r'"
proof (cases x)
  case (Enqueue t)
  then show ?thesis using run_inv_enqueue[OF assms] by simp
next
  case (RegisterRewriter w)
  then show ?thesis using run_inv_register[OF assms] by simp
next
  case Dequeue
  let ?s = "queue r"
  from assms have pi: "ppq_inv (eligibleInstructions ?s)"
    by (simp add: run_inv_def graph_inv_def)
  show ?thesis
  proof (cases "ppq_isEmpty (eligibleInstructions ?s)")
    case True
    then have "apply_op Dequeue r = Some (r\<lparr>queue := ?s, returned := returned r @ [None]\<rparr>)"
      by (simp add: dequeueInstruction_empty)
    moreover have "run_inv (r\<lparr>queue := ?s, returned := returned r @ [None]\<rparr>)"
      using assms by (simp add: run_inv_def map_filter_append List.map_filter_def)
    ultimately show ?thesis using Dequeue by simp
  next
    case False
    from dequeueInstruction_nonEmpty[OF pi False] obtain y q' where
      y: "ppq_dequeue (eligibleInstructions ?s) = Some (Some y, q')"
         "dequeueInstruction ?s = Some (Some y, complete y (?s\<lparr>eligibleInstructions := q'\<rparr>))"
         "ppq_inv q'"
         "mset (ppq_contents (eligibleInstructions ?s)) = add_mset y (mset (ppq_contents q'))"
      by blast
    from run_inv_dequeued[OF assms y(1,3,4)] y(2) Dequeue show ?thesis by simp
  qed
qed

lemma run_ops_inv:
  "run_inv r \<Longrightarrow> \<exists>r'. run_ops ops r = Some r' \<and> run_inv r'"
proof (induction ops arbitrary: r)
  case Nil
  then show ?case by simp
next
  case (Cons x ops)
  from run_inv_apply_op[OF Cons.prems] obtain r1 where "apply_op x r = Some r1" "run_inv r1"
    by blast
  with Cons.IH[of r1] show ?case by simp
qed

lemma run_trace_inv: "\<exists>r. run_trace ops = Some r \<and> run_inv r"
  unfolding run_trace_def by (rule run_ops_inv[OF run_inv_new])

subsection \<open>Totality of dequeue\<close>







subsection \<open>Invariants of the scheduler over traces\<close>



text \<open>
  C3: after every trace the multiset of the instructions in the priority-partitioned queue
  is the multiset of the instructions that exist (created by an \<open>enqueue\<close>), have an
  empty dependency set and have not been dequeued.
\<close>

theorem ready_set_eligible:
  "\<exists>r. run_trace ops = Some r
      \<and> mset (ppq_contents (eligibleInstructions (queue r)))
          = mset (filter (\<lambda>h. dependencies (instrs (queue r) h) = [] \<and> h \<notin> set (dequeued r))
                    [0..<allocated (queue r)])"
proof -
  from run_trace_inv[of ops] obtain r where r: "run_trace ops = Some r" "run_inv r" by blast
  let ?P = "ppq_contents (eligibleInstructions (queue r))"
  let ?F = "filter (\<lambda>h. dependencies (instrs (queue r) h) = [] \<and> h \<notin> set (dequeued r))
              [0..<allocated (queue r)]"
  from r(2) have d: "distinct (?P @ dequeued r)"
    and m: "\<And>h. h \<in> set ?P \<union> set (dequeued r)
          \<longleftrightarrow> h < allocated (queue r) \<and> dependencies (instrs (queue r) h) = []"
    by (auto simp: run_inv_def)
  have "set ?P = set ?F"
  proof (rule set_eqI)
    fix h
    show "h \<in> set ?P \<longleftrightarrow> h \<in> set ?F" using m[of h] d by auto
  qed
  moreover have "distinct ?P" using d by simp
  moreover have "distinct ?F" by simp
  ultimately have "mset ?P = mset ?F"
    using set_eq_iff_mset_eq_distinct[of ?P ?F] by blast
  with r(1) show ?thesis by blast
qed

theorem ready_set_eligible_witness:
  "\<exists>r. run_trace
          [Enqueue \<lparr>index = 10, metadata = \<lparr>readSet = [], writeSet = [7], priority = 0\<rparr>\<rparr>,
           Enqueue \<lparr>index = 20, metadata = \<lparr>readSet = [7], writeSet = [], priority = 0\<rparr>\<rparr>,
           Enqueue \<lparr>index = 30, metadata = \<lparr>readSet = [], writeSet = [], priority = 0\<rparr>\<rparr>,
           Dequeue] = Some r
      \<and> mset (ppq_contents (eligibleInstructions (queue r))) = {#1, 2#}"
proof -
  let ?tr = "[Enqueue \<lparr>index = 10, metadata = \<lparr>readSet = [], writeSet = [7], priority = 0\<rparr>\<rparr>,
           Enqueue \<lparr>index = 20, metadata = \<lparr>readSet = [7], writeSet = [], priority = 0\<rparr>\<rparr>,
           Enqueue \<lparr>index = 30, metadata = \<lparr>readSet = [], writeSet = [], priority = 0\<rparr>\<rparr>,
           Dequeue]"
  from ready_set_eligible[of ?tr] obtain r where
    r: "run_trace ?tr = Some r"
       "mset (ppq_contents (eligibleInstructions (queue r)))
          = mset (filter (\<lambda>h. dependencies (instrs (queue r) h) = [] \<and> h \<notin> set (dequeued r))
                    [0..<allocated (queue r)])"
    by blast
  have "map_option (\<lambda>r. filter (\<lambda>h. dependencies (instrs (queue r) h) = [] \<and> h \<notin> set (dequeued r))
                    [0..<allocated (queue r)]) (run_trace ?tr) = Some [1, 2]"
    by code_simp
  with r(1) have "filter (\<lambda>h. dependencies (instrs (queue r) h) = [] \<and> h \<notin> set (dequeued r))
                    [0..<allocated (queue r)] = [1, 2]" by simp
  with r show ?thesis by auto
qed

text \<open>
  C9: after every trace no instruction occurs twice in the list of the instructions in
  the priority-partitioned queue followed by the instructions that \<open>dequeue\<close> picked; so
  an instruction enters the queue at most once and the sequence of dequeued instructions
  has no duplicates. Each dequeued instruction is the instruction of an enqueued task
  (the \<open>h\<close>-th \<open>enqueue\<close> creates instruction \<open>h\<close>), and the tasks that \<open>dequeue\<close>
  returned are the tasks of these instructions, in this order.
\<close>

theorem dequeued_at_most_once:
  "\<exists>r. run_trace ops = Some r
      \<and> distinct (ppq_contents (eligibleInstructions (queue r)) @ dequeued r)
      \<and> (\<forall>h \<in> set (dequeued r). h < length (enqueuedTasks r))
      \<and> List.map_filter id (returned r) = map (\<lambda>h. enqueuedTasks r ! h) (dequeued r)"
proof -
  from run_trace_inv[of ops] obtain r where r: "run_trace ops = Some r" "run_inv r" by blast
  from r(2) have "\<And>h. h \<in> set (dequeued r) \<Longrightarrow> h < length (enqueuedTasks r)"
    by (auto simp: run_inv_def)
  with r show ?thesis by (auto simp: run_inv_def)
qed

theorem dequeued_at_most_once_witness:
  "\<exists>r. run_trace
          [Enqueue \<lparr>index = 10, metadata = \<lparr>readSet = [], writeSet = [7], priority = 0\<rparr>\<rparr>,
           Enqueue \<lparr>index = 20, metadata = \<lparr>readSet = [7], writeSet = [], priority = 5\<rparr>\<rparr>,
           Dequeue, Dequeue, Dequeue] = Some r
      \<and> dequeued r = [0, 1] \<and> distinct (dequeued r)
      \<and> List.map_filter id (returned r) = map (\<lambda>h. enqueuedTasks r ! h) (dequeued r)"
proof -
  let ?tr = "[Enqueue \<lparr>index = 10, metadata = \<lparr>readSet = [], writeSet = [7], priority = 0\<rparr>\<rparr>,
           Enqueue \<lparr>index = 20, metadata = \<lparr>readSet = [7], writeSet = [], priority = 5\<rparr>\<rparr>,
           Dequeue, Dequeue, Dequeue]"
  from dequeued_at_most_once[of ?tr] obtain r where
    r: "run_trace ?tr = Some r"
       "distinct (ppq_contents (eligibleInstructions (queue r)) @ dequeued r)"
       "\<forall>h \<in> set (dequeued r). h < length (enqueuedTasks r)"
       "List.map_filter id (returned r) = map (\<lambda>h. enqueuedTasks r ! h) (dequeued r)"
    by blast
  have "map_option dequeued (run_trace ?tr) = Some [0, 1]"
    by code_simp
  with r(1) have "dequeued r = [0, 1]" by simp
  with r show ?thesis by auto
qed

subsection \<open>Data dependencies and the order of dequeuing\<close>

lemma run_ops_append:
  "run_ops (xs @ ys) r = (case run_ops xs r of None \<Rightarrow> None | Some r1 \<Rightarrow> run_ops ys r1)"
  by (induction xs arbitrary: r) (auto split: option.splits)

lemma dequeue_step:
  assumes "run_inv r" and "\<not> ppq_isEmpty (eligibleInstructions (queue r))"
  shows "\<exists>x q'. ppq_dequeue (eligibleInstructions (queue r)) = Some (Some x, q')
           \<and> apply_op Dequeue r
               = Some (r\<lparr>queue := complete x (queue r\<lparr>eligibleInstructions := q'\<rparr>),
                         returned := returned r @ [Some (task (instrs (queue r) x))],
                         dequeued := dequeued r @ [x]\<rparr>)
           \<and> x \<in> set (ppq_contents (eligibleInstructions (queue r)))
           \<and> ppq_inv q'
           \<and> mset (ppq_contents (eligibleInstructions (queue r)))
               = add_mset x (mset (ppq_contents q'))"
proof -
  from assms(1) have pi: "ppq_inv (eligibleInstructions (queue r))"
    by (simp add: run_inv_def graph_inv_def)
  from dequeueInstruction_nonEmpty[OF pi assms(2)] obtain x q' where
    y: "ppq_dequeue (eligibleInstructions (queue r)) = Some (Some x, q')"
       "dequeueInstruction (queue r)
          = Some (Some x, complete x (queue r\<lparr>eligibleInstructions := q'\<rparr>))"
       "ppq_inv q'"
       "mset (ppq_contents (eligibleInstructions (queue r))) = add_mset x (mset (ppq_contents q'))"
    by blast
  have "x \<in> set (ppq_contents (eligibleInstructions (queue r)))"
    using y(4) by (metis mset_eq_setD list.set_intros(1) mset.simps(2))
  moreover have "apply_op Dequeue r
               = Some (r\<lparr>queue := complete x (queue r\<lparr>eligibleInstructions := q'\<rparr>),
                         returned := returned r @ [Some (task (instrs (queue r) x))],
                         dequeued := dequeued r @ [x]\<rparr>)"
    using y(2) by (simp add: complete_simps)
  ultimately show ?thesis using y by blast
qed

lemma dequeue_step_empty:
  assumes "ppq_isEmpty (eligibleInstructions (queue r))"
  shows "apply_op Dequeue r = Some (r\<lparr>returned := returned r @ [None]\<rparr>)"
  using assms by (simp add: dequeueInstruction_empty)













subsection \<open>What dequeue selects and what it completes\<close>


















subsection \<open>The merge scenario\<close>

lemma transferDependencies_task:
  "task (instrs (transferDependencies m i s) h) = task (instrs s h)"
proof -
  have "task (instrs (fold (\<lambda>element s0.
             mapInvertedDependencies m (\<lambda>x. set_add x element)
               (mapDependencies element (\<lambda>x. set_add x m)
                 (mapDependencies element (\<lambda>x. set_remove x i) s0))) es s) h)
        = task (instrs s h)" for es
    by (induction es arbitrary: s) (simp_all add: map_simps)
  then show ?thesis by (simp add: transferDependencies_def)
qed

lemma createMergedInstruction_task:
  "createMergedInstruction first second t s = (m, s') \<Longrightarrow>
   m = allocated s \<and> task (instrs s' m) = t"
  by (auto simp: createMergedInstruction_def Let_def introduceInstruction_simps
      completeInstruction_simps transferDependencies_task newTaskInstruction_def)

lemma interestSets_enqueue:
  "interestSets (merger (enqueue t s))
     = introduceLoop t (allocated s) (rewriters (merger s)) (interestSets (merger s))"
  by (simp add: enqueue_def Let_def introduceInstruction_def fold_setLatest fold_addDependency
      newTaskInstruction_def)

lemma singleton_list: "distinct xs \<Longrightarrow> set xs = {a} \<Longrightarrow> xs = [a]"
  by (cases xs) (auto simp: Diff_insert_absorb dest: subset_singletonD)

lemma scenario_graph:
  fixes w :: ModelTaskRewriter
  assumes c1: "c \<in> set (writeSet (metadata t1))" and c2: "c \<in> set (readSet (metadata t2))"
  defines "s3 \<equiv> enqueue t2 (enqueue t1 (registerRewriter w newModelTaskQueue))"
  shows "allocated s3 = 2"
    and "dependencies (instrs s3 0) = []"
    and "set (dependencies (instrs s3 (Suc 0))) = {0}"
    and "invertedDependencies (instrs s3 0) = [Suc 0]"
    and "task (instrs s3 0) = t1" and "task (instrs s3 (Suc 0)) = t2"
    and "rewriters (merger s3) = [w]"
    and "isOfInterest w t1 \<Longrightarrow> isOfInterest w t2 \<Longrightarrow> interestSets (merger s3) = [[0, Suc 0]]"
proof -
  let ?s1 = "registerRewriter w newModelTaskQueue"
  let ?s2 = "enqueue t1 ?s1"
  have g3: "graph_inv s3"
    unfolding s3_def
    by (intro graph_inv_enqueue) (simp add: graph_inv_register graph_inv_new)
  have a1: "allocated ?s1 = 0" and l1: "latestComponentStateMap ?s1 = Map.empty"
    and d1: "\<And>h. dependencies (instrs ?s1 h) = []"
    and v1: "\<And>h. invertedDependencies (instrs ?s1 h) = []"
    by (simp_all add: registerRewriter_simps newModelTaskQueue_def newTaskInstruction_def)
  have n1: "newDependencies t1 ?s1 = {}" by (simp add: newDependencies_def l1)
  have a2: "allocated ?s2 = Suc 0" by (simp add: enqueue_simps a1)
  have d2: "set (dependencies (instrs ?s2 h)) = {}" for h
    by (simp add: enqueue_deps n1 d1)
  have v2: "set (invertedDependencies (instrs ?s2 h)) = {}" for h
    by (simp add: enqueue_invdeps n1 v1)
  have l2: "latestComponentStateMap ?s2 x
      = (if x \<in> set (writeSet (metadata t1)) then Some 0 else None)" for x
    by (simp add: enqueue_simps a1 l1)
  have n2: "newDependencies t2 ?s2 = {0}"
    using c1 c2 by (auto simp: newDependencies_def l2 split: if_splits)
  show "allocated s3 = 2" by (simp add: s3_def enqueue_simps a1)
  have "set (dependencies (instrs s3 0)) = {}"
    using enqueue_deps[of t2 ?s2 0] d2[of 0] by (simp only: s3_def a2) simp
  then show "dependencies (instrs s3 0) = []" by simp
  show "set (dependencies (instrs s3 (Suc 0))) = {0}"
    using enqueue_deps[of t2 ?s2 "Suc 0"] by (simp only: s3_def a2 n2) simp
  have "set (invertedDependencies (instrs s3 0)) = {Suc 0}"
    using enqueue_invdeps[of t2 ?s2 0] v2[of 0] by (simp only: s3_def a2 n2) simp
  moreover have "distinct (invertedDependencies (instrs s3 0))"
    using g3 by (simp add: graph_inv_def)
  ultimately show "invertedDependencies (instrs s3 0) = [Suc 0]"
    by (rule singleton_list[rotated])
  show "task (instrs s3 0) = t1" by (simp add: s3_def enqueue_simps a1 a2)
  show "task (instrs s3 (Suc 0)) = t2" by (simp add: s3_def enqueue_simps a1 a2)
  have r1: "rewriters (merger ?s1) = [w]" and i1: "interestSets (merger ?s1) = [[]]"
    by (simp_all add: registerRewriter_def im_registerRewriter_def newModelTaskQueue_def
        newInstructionMerger_def)
  show "rewriters (merger s3) = [w]" by (simp add: s3_def enqueue_simps r1)
  show "interestSets (merger s3) = [[0, Suc 0]]" if "isOfInterest w t1" "isOfInterest w t2"
    using that
    by (simp add: s3_def interestSets_enqueue enqueue_simps r1 i1 a1 a2 set_add_def)
qed

lemma scenario_merge:
  assumes c1: "c \<in> set (writeSet (metadata t1))" and c2: "c \<in> set (readSet (metadata t2))"
    and i1: "isOfInterest w t1" and i2: "isOfInterest w t2"
    and mr: "maybeRewrite w t1 t2 = Some t12"
  shows "\<exists>s'. merge 0 (enqueue t2 (enqueue t1 (registerRewriter w newModelTaskQueue)))
                 = (Some (2, 1), s')
              \<and> task (instrs s' 2) = t12"
proof -
  let ?s3 = "enqueue t2 (enqueue t1 (registerRewriter w newModelTaskQueue))"
  note g = scenario_graph[OF c1 c2, of w]
  have cm: "canMergeReadAfterWrite 0 (Suc 0) ?s3"
    by (simp add: canMergeReadAfterWrite_def g(4))
  have cand: "findReadAfterWriteMergeCandidates 0 ?s3 = [(Suc 0, w)]"
    by (simp add: findReadAfterWriteMergeCandidates_def g(4) g(7) g(8)[OF i1 i2] cm)
  obtain m s' where cr: "createMergedInstruction 0 (Suc 0) t12 ?s3 = (m, s')"
    by (cases "createMergedInstruction 0 (Suc 0) t12 ?s3") auto
  from createMergedInstruction_task[OF cr] g(1) have m: "m = 2" "task (instrs s' m) = t12"
    by auto
  have "merge 0 ?s3 = (Some (m, Suc 0), s')"
    by (simp add: merge_def cand g(5) g(6) mr cr)
  with m show ?thesis by auto
qed

lemma run_inv_contents:
  assumes "run_inv r"
  shows "set (ppq_contents (eligibleInstructions (queue r)))
           = {h. h < allocated (queue r) \<and> dependencies (instrs (queue r) h) = []}
             - set (dequeued r)"
proof -
  from assms have d: "distinct (ppq_contents (eligibleInstructions (queue r)) @ dequeued r)"
    and m: "\<And>h. h \<in> set (ppq_contents (eligibleInstructions (queue r))) \<union> set (dequeued r)
          \<longleftrightarrow> h < allocated (queue r) \<and> dependencies (instrs (queue r) h) = []"
    by (auto simp: run_inv_def)
  show ?thesis
  proof (rule set_eqI)
    fix h
    show "h \<in> set (ppq_contents (eligibleInstructions (queue r)))
        \<longleftrightarrow> h \<in> {h. h < allocated (queue r) \<and> dependencies (instrs (queue r) h) = []}
              - set (dequeued r)"
      using m[of h] d by auto
  qed
qed

lemma dequeue_step_run:
  assumes "run_inv r" and "set (ppq_contents (eligibleInstructions (queue r))) = {x}"
  shows "\<exists>r'. apply_op Dequeue r = Some r' \<and> run_inv r'
           \<and> returned r' = returned r @ [Some (task (instrs (queue r) x))]
           \<and> dequeued r' = dequeued r @ [x]
           \<and> allocated (queue r') = allocated (queue r)
           \<and> (\<forall>h. task (instrs (queue r') h) = task (instrs (queue r) h))
           \<and> (\<forall>h. dependencies (instrs (queue r') h)
                  = (if h \<in> set (invertedDependencies (instrs (queue r) x))
                     then removeAll x (dependencies (instrs (queue r) h))
                     else dependencies (instrs (queue r) h)))"
proof -
  from assms(1) have pi: "ppq_inv (eligibleInstructions (queue r))"
    by (simp add: run_inv_def graph_inv_def)
  have "ppq_contents (eligibleInstructions (queue r)) \<noteq> []" using assms(2) by auto
  then have ne: "\<not> ppq_isEmpty (eligibleInstructions (queue r))"
    using ppq_isEmpty_iff[OF pi] by simp
  from dequeue_step[OF assms(1) ne] obtain y q' where
    y: "apply_op Dequeue r
               = Some (r\<lparr>queue := complete y (queue r\<lparr>eligibleInstructions := q'\<rparr>),
                         returned := returned r @ [Some (task (instrs (queue r) y))],
                         dequeued := dequeued r @ [y]\<rparr>)"
       "y \<in> set (ppq_contents (eligibleInstructions (queue r)))"
    by blast
  from y(2) assms(2) have yx: "y = x" by simp
  from run_inv_apply_op[OF assms(1), of Dequeue] y(1)
  have "run_inv (r\<lparr>queue := complete y (queue r\<lparr>eligibleInstructions := q'\<rparr>),
                         returned := returned r @ [Some (task (instrs (queue r) y))],
                         dequeued := dequeued r @ [y]\<rparr>)"
    by auto
  with y(1) yx show ?thesis by (auto simp: complete_simps)
qed

lemma below_two: "h < (2::nat) \<longleftrightarrow> h = 0 \<or> h = Suc 0"
  by auto

lemma removeAll_only: "set xs = {a} \<Longrightarrow> removeAll a xs = []"
proof -
  assume a: "set xs = {a}"
  have "removeAll a xs = filter (\<lambda>x. x \<noteq> a) xs" by (induction xs) auto
  also have "\<dots> = []" using a by (simp add: filter_empty_conv)
  finally show ?thesis .
qed

lemma nonempty_of_set: "set xs = {a} \<Longrightarrow> xs \<noteq> []"
  by auto

lemma contents_eq:
  assumes "run_inv r" and "queue r = s" and "dequeued r = l"
    and "{h. h < allocated s \<and> dependencies (instrs s h) = []} - set l = X"
  shows "set (ppq_contents (eligibleInstructions (queue r))) = X"
  using run_inv_contents[OF assms(1)] assms(2-4) by simp

lemma eligible_two_a:
  "allocated s = 2 \<Longrightarrow> dependencies (instrs s 0) = [] \<Longrightarrow>
   dependencies (instrs s (Suc 0)) \<noteq> [] \<Longrightarrow>
   {h. h < allocated s \<and> dependencies (instrs s h) = []} - set [] = {0}"
  by (auto simp: below_two)

lemma eligible_two_b:
  "allocated s = 2 \<Longrightarrow> dependencies (instrs s 0) = [] \<Longrightarrow>
   dependencies (instrs s (Suc 0)) = [] \<Longrightarrow>
   {h. h < allocated s \<and> dependencies (instrs s h) = []} - set [0] = {Suc 0}"
  by (auto simp: below_two)

lemma eligible_two_c:
  "allocated s = 2 \<Longrightarrow>
   {h. h < allocated s \<and> dependencies (instrs s h) = []} - set [0, Suc 0] = {}"
  by (auto simp: below_two)

lemma scenario_dequeues:
  fixes w :: ModelTaskRewriter
  assumes c1: "c \<in> set (writeSet (metadata t1))" and c2: "c \<in> set (readSet (metadata t2))"
  shows "\<exists>r. run_trace [RegisterRewriter w, Enqueue t1, Enqueue t2, Dequeue, Dequeue, Dequeue]
                = Some r
            \<and> returned r = [Some t1, Some t2, None]"
proof -
  define s3 where "s3 = enqueue t2 (enqueue t1 (registerRewriter w newModelTaskQueue))"
  define r3 where "r3 = newRun\<lparr>queue := s3, enqueuedTasks := [t1, t2]\<rparr>"
  note g = scenario_graph[OF c1 c2, of w, folded s3_def]
  have run3: "run_ops [RegisterRewriter w, Enqueue t1, Enqueue t2] newRun = Some r3"
    by (simp add: newRun_def r3_def s3_def)
  from run_trace_inv[of "[RegisterRewriter w, Enqueue t1, Enqueue t2]"]
  have inv3: "run_inv r3" unfolding run_trace_def run3 by simp
  have q3: "queue r3 = s3" and l3: "dequeued r3 = []" and rt3: "returned r3 = []"
    by (simp_all add: newRun_def r3_def)
  have d31: "dependencies (instrs s3 (Suc 0)) \<noteq> []" using g(3) by (rule nonempty_of_set)
  have P3: "set (ppq_contents (eligibleInstructions (queue r3))) = {0}"
    by (rule contents_eq[OF inv3 q3 l3 eligible_two_a[OF g(1) g(2) d31]])
  from dequeue_step_run[OF inv3 P3] obtain r4 where
    r4: "apply_op Dequeue r3 = Some r4" "run_inv r4"
    and rt4: "returned r4 = returned r3 @ [Some (task (instrs (queue r3) 0))]"
    and l4: "dequeued r4 = dequeued r3 @ [0]"
    and a4: "allocated (queue r4) = allocated (queue r3)"
    and t4: "\<forall>h. task (instrs (queue r4) h) = task (instrs (queue r3) h)"
    and d4: "\<forall>h. dependencies (instrs (queue r4) h)
                  = (if h \<in> set (invertedDependencies (instrs (queue r3) 0))
                     then removeAll 0 (dependencies (instrs (queue r3) h))
                     else dependencies (instrs (queue r3) h))"
    by blast
  have rt4': "returned r4 = [Some t1]" using rt4 by (simp add: q3 rt3 g(5))
  have l4': "dequeued r4 = [0]" using l4 by (simp add: l3)
  have a4': "allocated (queue r4) = 2" using a4 by (simp add: q3 g(1))
  have t41: "task (instrs (queue r4) (Suc 0)) = t2" using t4 by (simp add: q3 g(6))
  have d40: "dependencies (instrs (queue r4) 0) = []"
    using d4[rule_format, of 0] by (simp add: q3 g(2) g(4))
  have d41: "dependencies (instrs (queue r4) (Suc 0)) = []"
    using d4[rule_format, of "Suc 0"] removeAll_only[OF g(3)] by (simp add: q3 g(4))
  have P4: "set (ppq_contents (eligibleInstructions (queue r4))) = {Suc 0}"
    by (rule contents_eq[OF r4(2) refl l4' eligible_two_b[OF a4' d40 d41]])
  from dequeue_step_run[OF r4(2) P4] obtain r5 where
    r5: "apply_op Dequeue r4 = Some r5" "run_inv r5"
    and rt5: "returned r5 = returned r4 @ [Some (task (instrs (queue r4) (Suc 0)))]"
    and l5: "dequeued r5 = dequeued r4 @ [Suc 0]"
    and a5: "allocated (queue r5) = allocated (queue r4)"
    by blast
  have rt5': "returned r5 = [Some t1, Some t2]" using rt5 by (simp add: rt4' t41)
  have l5': "dequeued r5 = [0, Suc 0]" using l5 by (simp add: l4')
  have a5': "allocated (queue r5) = 2" using a5 a4' by simp
  have "set (ppq_contents (eligibleInstructions (queue r5))) = {}"
    by (rule contents_eq[OF r5(2) refl l5' eligible_two_c[OF a5']])
  then have "ppq_contents (eligibleInstructions (queue r5)) = []" by simp
  moreover from r5(2) have "ppq_inv (eligibleInstructions (queue r5))"
    by (simp add: run_inv_def graph_inv_def)
  ultimately have "ppq_isEmpty (eligibleInstructions (queue r5))"
    using ppq_isEmpty_iff by blast
  from dequeue_step_empty[OF this]
  have r6: "apply_op Dequeue r5 = Some (r5\<lparr>returned := returned r5 @ [None]\<rparr>)" .
  have "run_ops [Dequeue, Dequeue, Dequeue] r3 = Some (r5\<lparr>returned := returned r5 @ [None]\<rparr>)"
    by (simp only: run_ops.simps r4(1) r5(1) r6 option.case)
  then have "run_ops ([RegisterRewriter w, Enqueue t1, Enqueue t2] @ [Dequeue, Dequeue, Dequeue])
                newRun = Some (r5\<lparr>returned := returned r5 @ [None]\<rparr>)"
    by (simp only: run_ops_append run3 option.case)
  then show ?thesis using rt5' by (simp add: run_trace_def)
qed

text \<open>
  C2, as the code has it: for a rewriter that is interested in \<open>t1\<close> and \<open>t2\<close> and merges
  them into \<open>t12\<close>, where \<open>t1\<close> writes a component that \<open>t2\<close> reads, registering the
  rewriter, enqueuing \<open>t1\<close> and then \<open>t2\<close> on a new queue makes the first \<open>dequeue\<close>
  return \<open>t1\<close>, the second return \<open>t2\<close> and the third return \<open>undefined\<close>: \<open>enqueue\<close> and
  \<open>dequeue\<close> keep the interest sets of the merger but never call its \<open>merge\<close>. Called on
  the instruction of \<open>t1\<close> after the two \<open>enqueue\<close>s, \<open>merge\<close> answers a new instruction
  with the task \<open>t12\<close> as merged and the instruction of \<open>t2\<close> as nullified.
\<close>

theorem merge_scenario:
  assumes "isOfInterest w t1" and "isOfInterest w t2"
    and "maybeRewrite w t1 t2 = Some t12"
    and "c \<in> set (writeSet (metadata t1))" and "c \<in> set (readSet (metadata t2))"
  shows "(\<exists>r. run_trace [RegisterRewriter w, Enqueue t1, Enqueue t2, Dequeue, Dequeue, Dequeue]
                = Some r
            \<and> returned r = [Some t1, Some t2, None])
       \<and> (\<exists>s'. merge 0 (enqueue t2 (enqueue t1 (registerRewriter w newModelTaskQueue)))
                 = (Some (2, 1), s')
              \<and> task (instrs s' 2) = t12)"
  using scenario_dequeues[OF assms(4,5), of w] scenario_merge[OF assms(4,5,1,2,3)]
  by (rule conjI)

theorem merge_scenario_witness:
  "(\<exists>r. run_trace [RegisterRewriter s6_rewriter, Enqueue s6_t1, Enqueue s6_t2,
                     Dequeue, Dequeue, Dequeue] = Some r
        \<and> returned r = [Some s6_t1, Some s6_t2, None])
   \<and> (\<exists>s'. merge 0 (enqueue s6_t2 (enqueue s6_t1 (registerRewriter s6_rewriter newModelTaskQueue)))
             = (Some (2, 1), s')
          \<and> task (instrs s' 2) = s6_t12)"
proof -
  have h: "isOfInterest s6_rewriter s6_t1" "isOfInterest s6_rewriter s6_t2"
      "maybeRewrite s6_rewriter s6_t1 s6_t2 = Some s6_t12"
      "7 \<in> set (writeSet (metadata s6_t1))" "7 \<in> set (readSet (metadata s6_t2))"
    by (simp_all add: s6_rewriter_def s6_t1_def s6_t2_def)
  show ?thesis by (rule merge_scenario[OF h])
qed

text \<open>
  The claim C2 as stated fails: in scenario S6 the first \<open>dequeue\<close> returns \<open>t1\<close>, not the
  merged task, and the second returns \<open>t2\<close>, not \<open>undefined\<close>.
\<close>

theorem merge_scenario_counterexample:
  "isOfInterest s6_rewriter s6_t1 \<and> isOfInterest s6_rewriter s6_t2
   \<and> maybeRewrite s6_rewriter s6_t1 s6_t2 = Some s6_t12
   \<and> map_option returned (run_trace
        [RegisterRewriter s6_rewriter, Enqueue s6_t1, Enqueue s6_t2, Dequeue, Dequeue])
      = Some [Some s6_t1, Some s6_t2]"
  by code_simp

end
